theory Spec2Isabelle
  imports Complex_Main "HOL-Library.AList" "HOL-Library.Multiset"
begin

section \<open>Values\<close>

text \<open>
  The worker computes with JavaScript numbers. They are modelled in exact arithmetic:
  integers (\<open>int\<close>, \<open>nat\<close>) for array indices, region ids, counts and colour bytes,
  \<open>real\<close> for colour channels, distances, averages and thresholds. The rounding of
  double precision is not modelled, except in the key of the palette's final sort, where
  it is a parameter. A colour \<^verbatim>\<open>[r, g, b]\<close> is a triple. A value that
  may be \<^verbatim>\<open>undefined\<close> is an \<open>option\<close> with \<open>None\<close> for \<^verbatim>\<open>undefined\<close>; a number
  that may be \<^verbatim>\<open>Infinity\<close> is an \<open>option\<close> with \<open>None\<close> for \<^verbatim>\<open>Infinity\<close>.
\<close>

type_synonym pixel = "real \<times> real \<times> real"

text \<open>
  The exceptions the code can raise: a \<^verbatim>\<open>TypeError\<close> for reading the named property of
  \<^verbatim>\<open>undefined\<close>, and the \<^verbatim>\<open>IndexSizeError\<close> of the host's \<^verbatim>\<open>ImageData\<close> constructor.
\<close>

datatype error = TypeError string | IndexSizeError

definition nthU :: "'a list \<Rightarrow> nat \<Rightarrow> 'a option" where
  "nthU xs i = (if i < length xs then Some (xs ! i) else None)"

definition atU :: "'a option list \<Rightarrow> nat \<Rightarrow> 'a option" where
  "atU xs i = (if i < length xs then xs ! i else None)"

definition lessInf :: "real option \<Rightarrow> real option \<Rightarrow> bool" where
  "lessInf a b = (case a of None \<Rightarrow> False
                  | Some x \<Rightarrow> (case b of None \<Rightarrow> True | Some y \<Rightarrow> x < y))"

definition mathRound :: "real \<Rightarrow> real" where
  "mathRound v = of_int \<lfloor>v + 1 / 2\<rfloor>"

definition euclideanDistance :: "pixel \<Rightarrow> pixel \<Rightarrow> real" where
  "euclideanDistance p1 p2 =
     (case p1 of (r1, g1, b1) \<Rightarrow> case p2 of (r2, g2, b2) \<Rightarrow>
        sqrt ((r1 - r2)\<^sup>2 + (g1 - g2)\<^sup>2 + (b1 - b2)\<^sup>2))"

text \<open>\<^verbatim>\<open>euclideanDistance\<close> called on values that may be \<^verbatim>\<open>undefined\<close>: \<^verbatim>\<open>p1[0]\<close> raises.\<close>

definition euclideanDistanceU :: "pixel option \<Rightarrow> pixel option \<Rightarrow> error + real" where
  "euclideanDistanceU p1 p2 =
     (case p1 of None \<Rightarrow> Inl (TypeError ''0'')
      | Some a \<Rightarrow> (case p2 of None \<Rightarrow> Inl (TypeError ''0'')
                   | Some b \<Rightarrow> Inr (euclideanDistance a b)))"

section \<open>PixelSampler: \<open>samplePixels\<close>\<close>

text \<open>
  The stride loop \<^verbatim>\<open>for (let i = 0; i < pixels.length; i += step) sample.push(pixels[i])\<close>.
  \<open>samplePixels\<close> only enters it with \<open>step \<ge> 1\<close>; the test \<open>0 < step\<close> keeps the
  recursion total for the other values of the parameter.
\<close>

function sampleLoop :: "'a list \<Rightarrow> nat \<Rightarrow> nat \<Rightarrow> 'a list \<Rightarrow> 'a list" where
  "sampleLoop pixels step i sample =
     (if i < length pixels \<and> 0 < step
      then sampleLoop pixels step (i + step) (sample @ [pixels ! i])
      else sample)"
  by pat_completeness auto
termination
  by (relation "measure (\<lambda>(pixels, step, i, sample). length pixels - i)") auto

declare sampleLoop.simps [simp del]

text \<open>
  \<^verbatim>\<open>samplePixels(pixels, sampleSize)\<close>. With \<open>sampleSize = 0\<close> and a nonempty array the
  quotient is \<^verbatim>\<open>Infinity\<close>: the loop pushes \<^verbatim>\<open>pixels[0]\<close> and stops.
\<close>

definition samplePixels :: "'a list \<Rightarrow> nat \<Rightarrow> 'a list" where
  "samplePixels pixels sampleSize =
     (if length pixels \<le> sampleSize then pixels
      else if sampleSize = 0 then [pixels ! 0]
      else sampleLoop pixels (length pixels div sampleSize) 0 [])"

section \<open>ColorClusterer: \<open>kmeans\<close>\<close>

text \<open>
  \<^verbatim>\<open>Math.random()\<close> is a parameter: \<open>random n\<close> is the result of the \<open>n\<close>-th call, a number
  in \<open>[0, 1)\<close>. \<^verbatim>\<open>Math.floor(Math.random() * pixels.length)\<close>:
\<close>

definition randomIndex :: "real \<Rightarrow> nat \<Rightarrow> nat" where
  "randomIndex r n = nat \<lfloor>r * real n\<rfloor>"

text \<open>
  The initialisation loop draws indices until \<open>min k (length pixels)\<close> distinct ones are
  chosen. It need not terminate (the same index may be drawn for ever): \<open>None\<close>.
  The result carries the number of draws made.
\<close>

partial_function (option) initCentroids ::
  "(nat \<Rightarrow> real) \<Rightarrow> pixel list \<Rightarrow> int \<Rightarrow> nat \<Rightarrow> pixel option list \<Rightarrow> nat list
     \<Rightarrow> (pixel option list \<times> nat) option" where
  "initCentroids random pixels k n centroids usedIndices =
     (if int (length centroids) < k \<and> length centroids < length pixels then
        (let index = randomIndex (random n) (length pixels) in
         if index \<notin> set usedIndices
         then initCentroids random pixels k (Suc n)
                (centroids @ [nthU pixels index]) (usedIndices @ [index])
         else initCentroids random pixels k (Suc n) centroids usedIndices)
      else Some (centroids, n))"

text \<open>
  The inner loop \<^verbatim>\<open>for (let i = 0; i < k; i++)\<close> of the assignment, over the indices
  still to visit; \<^verbatim>\<open>centroids[i]\<close> is \<^verbatim>\<open>undefined\<close> beyond the end of the array, and
  \<^verbatim>\<open>euclideanDistance\<close> then raises.
\<close>

fun closestCentroidIndex ::
  "pixel \<Rightarrow> pixel option list \<Rightarrow> nat list \<Rightarrow> real option \<Rightarrow> nat \<Rightarrow> error + nat" where
  "closestCentroidIndex pixel centroids [] minDistance closest = Inr closest"
| "closestCentroidIndex pixel centroids (i # rest) minDistance closest =
     (case euclideanDistanceU (Some pixel) (atU centroids i) of
        Inl e \<Rightarrow> Inl e
      | Inr distance \<Rightarrow>
          if lessInf (Some distance) minDistance
          then closestCentroidIndex pixel centroids rest (Some distance) i
          else closestCentroidIndex pixel centroids rest minDistance closest)"

text \<open>
  \<^verbatim>\<open>for (const pixel of pixels) { ... clusters[closestCentroidIndex].push(pixel) }\<close>;
  \<^verbatim>\<open>clusters\<close> has \<open>k\<close> entries, and \<^verbatim>\<open>clusters[0]\<close> is \<^verbatim>\<open>undefined\<close> when \<open>k < 1\<close>.
\<close>

fun assignPixels ::
  "pixel list \<Rightarrow> pixel option list \<Rightarrow> nat \<Rightarrow> pixel list list \<Rightarrow> error + pixel list list" where
  "assignPixels [] centroids k clusters = Inr clusters"
| "assignPixels (pixel # rest) centroids k clusters =
     (case closestCentroidIndex pixel centroids [0..<k] None 0 of
        Inl e \<Rightarrow> Inl e
      | Inr c \<Rightarrow>
          if c < length clusters
          then assignPixels rest centroids k (clusters[c := clusters ! c @ [pixel]])
          else Inl (TypeError ''push''))"

definition meanCentroid :: "pixel list \<Rightarrow> pixel" where
  "meanCentroid cluster =
     (case fold (\<lambda>pixel acc. (fst acc + fst pixel, fst (snd acc) + fst (snd pixel),
                              snd (snd acc) + snd (snd pixel))) cluster (0, 0, 0)
      of (r, g, b) \<Rightarrow>
        (mathRound (r / real (length cluster)), mathRound (g / real (length cluster)),
         mathRound (b / real (length cluster))))"

text \<open>
  The new centroids, over the cluster indices still to visit; an empty cluster is reseeded
  with \<^verbatim>\<open>pixels[Math.floor(Math.random() * pixels.length)]\<close>, which is \<^verbatim>\<open>undefined\<close>
  for an empty sample.
\<close>

fun newCentroids ::
  "(nat \<Rightarrow> real) \<Rightarrow> pixel list \<Rightarrow> pixel list list \<Rightarrow> nat list \<Rightarrow> nat \<Rightarrow> pixel option list
     \<Rightarrow> pixel option list \<times> nat" where
  "newCentroids random pixels clusters [] n acc = (acc, n)"
| "newCentroids random pixels clusters (i # rest) n acc =
     (if clusters ! i \<noteq> []
      then newCentroids random pixels clusters rest n (acc @ [Some (meanCentroid (clusters ! i))])
      else newCentroids random pixels clusters rest (Suc n)
             (acc @ [nthU pixels (randomIndex (random n) (length pixels))]))"

text \<open>
  The convergence test: \<open>Inr False\<close> at the first \<open>i\<close> with \<^verbatim>\<open>!lastCentroids[i]\<close> or a
  distance above 1.
\<close>

fun converged :: "pixel option list \<Rightarrow> pixel option list \<Rightarrow> nat list \<Rightarrow> error + bool" where
  "converged lastCentroids centroids [] = Inr True"
| "converged lastCentroids centroids (i # rest) =
     (case atU lastCentroids i of
        None \<Rightarrow> Inr False
      | Some l \<Rightarrow>
          (case euclideanDistanceU (Some l) (atU centroids i) of
             Inl e \<Rightarrow> Inl e
           | Inr distance \<Rightarrow>
               if distance > 1 then Inr False else converged lastCentroids centroids rest))"

text \<open>
  The main loop \<^verbatim>\<open>while (iterations < maxIterations)\<close>, by recursion on the number
  \<open>maxIterations - iterations\<close> of iterations left. The result is the pair
  \<^verbatim>\<open>{ centroids, clusters }\<close>.
\<close>

fun kmeansLoop ::
  "nat \<Rightarrow> (nat \<Rightarrow> real) \<Rightarrow> pixel list \<Rightarrow> nat \<Rightarrow> pixel option list \<Rightarrow> pixel list list \<Rightarrow> nat
     \<Rightarrow> error + (pixel option list \<times> pixel list list)" where
  "kmeansLoop 0 random pixels k centroids clusters n = Inr (centroids, clusters)"
| "kmeansLoop (Suc left) random pixels k centroids clusters n =
     (case assignPixels pixels centroids k (replicate k []) of
        Inl e \<Rightarrow> Inl e
      | Inr clusters' \<Rightarrow>
          (case newCentroids random pixels clusters' [0..<k] n [] of
             (centroids', n') \<Rightarrow>
               (case converged centroids centroids' [0..<k] of
                  Inl e \<Rightarrow> Inl e
                | Inr c \<Rightarrow>
                    if c then Inr (centroids', clusters')
                    else kmeansLoop left random pixels k centroids' clusters' n')))"

definition kmeans ::
  "(nat \<Rightarrow> real) \<Rightarrow> pixel list \<Rightarrow> int
     \<Rightarrow> (error + (pixel option list \<times> pixel list list)) option" where
  "kmeans random pixels k =
     (case initCentroids random pixels k 0 [] [] of
        None \<Rightarrow> None
      | Some (centroids, n) \<Rightarrow> Some (kmeansLoop 30 random pixels (nat k) centroids [] n))"

section \<open>PaletteOptimizer: \<open>generateOptimalPalette\<close>\<close>

text \<open>
  The key of the final sort, \<^verbatim>\<open>0.2126 * a[0] + 0.7152 * a[1] + 0.0722 * a[2]\<close>. The code
  evaluates it in double arithmetic, and the order of two colours whose exact luminances
  are equal or nearly equal depends on the rounding. The rounding \<open>fl\<close> of a real number
  to a double is therefore a parameter: each literal and the result of each operation is
  rounded, in the order of evaluation. With the identity for \<open>fl\<close> the key is the exact
  luminance.
\<close>

definition luminance :: "(real \<Rightarrow> real) \<Rightarrow> pixel \<Rightarrow> real" where
  "luminance fl a =
     (case a of (r, g, b) \<Rightarrow>
        fl (fl (fl (fl 0.2126 * r) + fl (fl 0.7152 * g)) + fl (fl 0.0722 * b)))"

text \<open>
  \<^verbatim>\<open>array.sort((a, b) => aLuminance - bLuminance)\<close>: the difference of two doubles is
  negative exactly when the first is the smaller one, so this is a sort by the key, and
  it is stable (ECMAScript 2019); the \<^verbatim>\<open>undefined\<close> elements of an array are moved to its
  end without being compared.
\<close>

definition sortByLuminance :: "(real \<Rightarrow> real) \<Rightarrow> pixel option list \<Rightarrow> pixel option list" where
  "sortByLuminance fl xs =
     map Some (sort_key (luminance fl) (List.map_filter (\<lambda>x. x) xs)) @
     filter (\<lambda>x. x = None) xs"

text \<open>
  The pairs \<^verbatim>\<open>{ color, size }\<close> with \<open>size > 0\<close>, sorted by descending size (stably);
  \<^verbatim>\<open>clusters[i]\<close> may be missing, and then the size is 0.
\<close>

definition weightedCentroids ::
  "pixel option list \<Rightarrow> pixel list list \<Rightarrow> (pixel option \<times> nat) list" where
  "weightedCentroids centroids clusters =
     sort_key (\<lambda>c. - int (snd c))
       (filter (\<lambda>c. snd c > 0)
          (map (\<lambda>i. (centroids ! i,
                     (case nthU clusters i of Some cluster \<Rightarrow> length cluster | None \<Rightarrow> 0)))
             [0..<length centroids]))"

text \<open>
  \<^verbatim>\<open>minDistanceToPalette\<close> of one candidate: the fold of \<^verbatim>\<open>Math.min\<close> over the palette,
  from \<^verbatim>\<open>Infinity\<close>.
\<close>

fun minDistanceToPalette ::
  "pixel option \<Rightarrow> pixel option list \<Rightarrow> real option \<Rightarrow> error + real option" where
  "minDistanceToPalette candidate [] minDistance = Inr minDistance"
| "minDistanceToPalette candidate (color # rest) minDistance =
     (case euclideanDistanceU candidate color of
        Inl e \<Rightarrow> Inl e
      | Inr d \<Rightarrow>
          minDistanceToPalette candidate rest
            (Some (case minDistance of None \<Rightarrow> d | Some m \<Rightarrow> min m d)))"

text \<open>
  The scan \<^verbatim>\<open>for (const candidate of candidates)\<close>: the position of the best candidate so
  far (\<open>None\<close> for \<^verbatim>\<open>null\<close>) and its distance \<^verbatim>\<open>maxMinDistance\<close>. The position stands for
  the reference \<^verbatim>\<open>bestCandidate\<close>: the scan keeps the first candidate that reaches the
  maximum, so \<^verbatim>\<open>candidates.findIndex(c => c === bestCandidate)\<close> is that position.
\<close>

fun bestCandidate ::
  "pixel option list \<Rightarrow> nat \<Rightarrow> pixel option list \<Rightarrow> real option \<Rightarrow> nat option
     \<Rightarrow> error + nat option" where
  "bestCandidate [] i finalPalette maxMinDistance best = Inr best"
| "bestCandidate (candidate # rest) i finalPalette maxMinDistance best =
     (case minDistanceToPalette candidate finalPalette None of
        Inl e \<Rightarrow> Inl e
      | Inr minDistance \<Rightarrow>
          if lessInf maxMinDistance minDistance
          then bestCandidate rest (Suc i) finalPalette minDistance (Some i)
          else bestCandidate rest (Suc i) finalPalette maxMinDistance best)"

text \<open>
  The greedy loop \<^verbatim>\<open>while (finalPalette.length < k && candidates.length > 0)\<close>. Every
  iteration that does not leave the loop pushes one colour, so \<open>k - length finalPalette\<close>
  decreases. \<^verbatim>\<open>if (bestCandidate)\<close> fails for \<^verbatim>\<open>null\<close> and for \<^verbatim>\<open>undefined\<close>.
\<close>

function paletteLoop ::
  "int \<Rightarrow> pixel option list \<Rightarrow> pixel option list \<Rightarrow> error + pixel option list" where
  "paletteLoop k finalPalette candidates =
     (if int (length finalPalette) < k \<and> candidates \<noteq> [] then
        (case bestCandidate candidates 0 finalPalette (Some (- 1)) None of
           Inl e \<Rightarrow> Inl e
         | Inr None \<Rightarrow> Inr finalPalette
         | Inr (Some i) \<Rightarrow>
             (case atU candidates i of
                None \<Rightarrow> Inr finalPalette
              | Some c \<Rightarrow>
                  paletteLoop k (finalPalette @ [Some c])
                    (take i candidates @ drop (Suc i) candidates)))
      else Inr finalPalette)"
  by pat_completeness auto
termination
  by (relation "measure (\<lambda>(k, finalPalette, candidates). nat (k - int (length finalPalette)))")
    auto

declare paletteLoop.simps [simp del]

definition generateOptimalPalette ::
  "(real \<Rightarrow> real) \<Rightarrow> pixel option list \<Rightarrow> pixel list list \<Rightarrow> int
     \<Rightarrow> error + pixel option list" where
  "generateOptimalPalette fl centroids clusters k =
     (if int (length centroids) \<le> k then Inr (sortByLuminance fl centroids)
      else
        (case map fst (weightedCentroids centroids clusters) of
           [] \<Rightarrow> Inr (sortByLuminance fl [])
         | first # candidates \<Rightarrow>
             (case paletteLoop k [first] candidates of
                Inl e \<Rightarrow> Inl e
              | Inr finalPalette \<Rightarrow> Inr (sortByLuminance fl finalPalette))))"

section \<open>\<open>findClosestColor\<close>\<close>

fun closestColorLoop ::
  "pixel \<Rightarrow> pixel option list \<Rightarrow> real option \<Rightarrow> pixel option \<Rightarrow> error + pixel option" where
  "closestColorLoop pixel [] minDistance closestColor = Inr closestColor"
| "closestColorLoop pixel (color # rest) minDistance closestColor =
     (case euclideanDistanceU (Some pixel) color of
        Inl e \<Rightarrow> Inl e
      | Inr distance \<Rightarrow>
          if lessInf (Some distance) minDistance
          then closestColorLoop pixel rest (Some distance) color
          else closestColorLoop pixel rest minDistance closestColor)"

definition findClosestColor :: "pixel \<Rightarrow> pixel option list \<Rightarrow> error + pixel option" where
  "findClosestColor pixel colors = closestColorLoop pixel colors None (atU colors 0)"

section \<open>LabelPlacer: \<open>findBestLabelPosition\<close>\<close>

text \<open>
  A region of the segmentation. \<open>id_r\<close> is the field \<^verbatim>\<open>id\<close>; \<open>color\<close> is \<^verbatim>\<open>undefined\<close>
  until the palette colour is assigned.
\<close>

record region =
  id_r :: int
  pixels :: "int list"
  sumR :: int
  sumG :: int
  sumB :: int
  minX :: int
  minY :: int
  maxX :: int
  maxY :: int
  color :: "pixel option"

text \<open>
  A \<^verbatim>\<open>Set\<close> is the list of its elements in insertion order. \<^verbatim>\<open>new Set(array)\<close> keeps the
  first occurrence of each element.
\<close>

definition setAdd :: "'a \<Rightarrow> 'a list \<Rightarrow> 'a list" where
  "setAdd x xs = (if x \<in> set xs then xs else xs @ [x])"

definition newSet :: "'a list \<Rightarrow> 'a list" where
  "newSet xs = fold setAdd xs []"

text \<open>The pixels of the working set with a 4-neighbour (by index) outside the set.\<close>

definition pixelsToRemove :: "int list \<Rightarrow> int \<Rightarrow> int list" where
  "pixelsToRemove currentPixels width =
     filter (\<lambda>pixelIndex.
        \<exists>neighborIndex \<in> set [pixelIndex - 1, pixelIndex + 1, pixelIndex - width, pixelIndex + width].
          neighborIndex \<notin> set currentPixels) currentPixels"

lemma pixelsToRemove_nonempty:
  assumes "currentPixels \<noteq> []"
  shows "pixelsToRemove currentPixels width \<noteq> []"
proof -
  let ?m = "Min (set currentPixels)"
  have m: "?m \<in> set currentPixels" using assms by (intro Min_in) simp_all
  have "?m - 1 \<notin> set currentPixels"
  proof
    assume "?m - 1 \<in> set currentPixels"
    then have "?m \<le> ?m - 1" by (intro Min_le) simp_all
    then show False by simp
  qed
  then have "?m \<in> set (pixelsToRemove currentPixels width)"
    using m by (auto simp add: pixelsToRemove_def)
  then show ?thesis by auto
qed

lemma erosion_shrinks:
  assumes "currentPixels \<noteq> []"
  shows "length (filter (\<lambda>p. p \<notin> set (pixelsToRemove currentPixels width)) currentPixels)
           < length currentPixels"
proof -
  from pixelsToRemove_nonempty [OF assms] obtain p
    where p: "p \<in> set (pixelsToRemove currentPixels width)"
    by (cases "pixelsToRemove currentPixels width") auto
  then have "p \<in> set currentPixels" by (simp add: pixelsToRemove_def)
  with p show ?thesis by (intro length_filter_less [of p]) simp_all
qed

text \<open>
  The erosion loop \<^verbatim>\<open>while (currentPixels.size > 0)\<close>; the result is \<^verbatim>\<open>lastPixels\<close>.
\<close>

function erosion :: "int list \<Rightarrow> int \<Rightarrow> int list \<Rightarrow> int list" where
  "erosion currentPixels width lastPixels =
     (if currentPixels = [] then lastPixels
      else if length (pixelsToRemove currentPixels width) = length currentPixels
      then currentPixels
      else erosion
             (filter (\<lambda>p. p \<notin> set (pixelsToRemove currentPixels width)) currentPixels)
             width currentPixels)"
  by pat_completeness auto
termination
  by (relation "measure (\<lambda>(currentPixels, width, lastPixels). length currentPixels)")
    (auto simp add: erosion_shrinks)

declare erosion.simps [simp del]

text \<open>
  \<^verbatim>\<open>findBestLabelPosition(region, width)\<close>, for pixel indices \<open>\<ge> 0\<close> and \<open>width > 0\<close>, where
  \<^verbatim>\<open>%\<close> and \<^verbatim>\<open>Math.floor(_ / width)\<close> are \<open>mod\<close> and \<open>div\<close>. The result is \<^verbatim>\<open>{ x, y }\<close>.
\<close>

definition findBestLabelPosition :: "region \<Rightarrow> int \<Rightarrow> real \<times> real" where
  "findBestLabelPosition region width =
     (if pixels region = [] then (- 1, - 1)
      else
        (let lastPixels = erosion (newSet (pixels region)) width [] in
         if lastPixels = []
         then (of_int (hd (pixels region) mod width), of_int (hd (pixels region) div width))
         else
           (let sumX = sum_list (map (\<lambda>pixelIndex. pixelIndex mod width) lastPixels);
                sumY = sum_list (map (\<lambda>pixelIndex. pixelIndex div width) lastPixels)
            in (mathRound (of_int sumX / real (length lastPixels)),
                mathRound (of_int sumY / real (length lastPixels))))))"

section \<open>Rasters\<close>

text \<open>
  An \<^verbatim>\<open>ImageData\<close>: \<open>data\<close> is the \<^verbatim>\<open>Uint8ClampedArray\<close> of the bytes R, G, B, A of
  the pixels in raster order. The host only builds an \<^verbatim>\<open>ImageData\<close> with positive
  dimensions and \<open>4 * width * height\<close> bytes (\<open>wellFormed\<close>); its constructor
  \<^verbatim>\<open>new ImageData(width, height)\<close> raises \<^verbatim>\<open>IndexSizeError\<close> for a zero dimension and
  otherwise returns a raster of zeros.
\<close>

record imageData =
  width :: nat
  height :: nat
  data :: "int list"

definition wellFormed :: "imageData \<Rightarrow> bool" where
  "wellFormed img \<longleftrightarrow>
     0 < width img \<and> 0 < height img \<and> length (data img) = 4 * (width img * height img)"

definition constructImageData :: "nat \<Rightarrow> nat \<Rightarrow> error + imageData" where
  "constructImageData w h =
     (if w = 0 \<or> h = 0 then Inl IndexSizeError
      else Inr \<lparr>width = w, height = h, data = replicate (4 * (w * h)) 0\<rparr>)"

text \<open>
  Storing a number into a \<^verbatim>\<open>Uint8ClampedArray\<close>: clamped to \<open>[0, 255]\<close> and rounded to
  the nearest integer, a tie to the even one.
\<close>

definition toUint8Clamp :: "real \<Rightarrow> int" where
  "toUint8Clamp v =
     (if v \<le> 0 then 0 else if 255 \<le> v then 255
      else if v - of_int \<lfloor>v\<rfloor> < 1 / 2 then \<lfloor>v\<rfloor>
      else if 1 / 2 < v - of_int \<lfloor>v\<rfloor> then \<lfloor>v\<rfloor> + 1
      else if even \<lfloor>v\<rfloor> then \<lfloor>v\<rfloor> else \<lfloor>v\<rfloor> + 1)"

text \<open>
  \<^verbatim>\<open>getPixels\<close>: one pixel per four bytes (the length of \<open>data\<close> is a multiple of 4).
\<close>

definition getPixels :: "imageData \<Rightarrow> pixel list" where
  "getPixels img =
     map (\<lambda>i. (of_int (data img ! (4 * i)), of_int (data img ! (4 * i + 1)),
                of_int (data img ! (4 * i + 2))))
       [0..<length (data img) div 4]"

section \<open>Smoother: \<open>applyMedianFilter\<close>\<close>

text \<open>
  The nine values of channel \<open>c\<close> in the window of the pixel \<open>(x, y)\<close>, in the order of
  the loops over \<open>j\<close> and \<open>i\<close>.
\<close>

definition channelValues :: "imageData \<Rightarrow> nat \<Rightarrow> nat \<Rightarrow> nat \<Rightarrow> int list" where
  "channelValues img y x c =
     concat (map (\<lambda>j. map (\<lambda>i.
        data img ! (nat ((int y + j) * int (width img) + (int x + i)) * 4 + c))
        [- 1, 0, 1]) [- 1, 0, 1])"

text \<open>The four bytes written for the pixel \<open>(x, y)\<close>.\<close>

definition filteredPixel :: "imageData \<Rightarrow> nat \<Rightarrow> nat \<Rightarrow> int list" where
  "filteredPixel img y x =
     (let index = (y * width img + x) * 4 in
      if x = 0 \<or> x + 1 = width img \<or> y = 0 \<or> y + 1 = height img
      then [data img ! index, data img ! (index + 1), data img ! (index + 2),
            data img ! (index + 3)]
      else [sort (channelValues img y x 0) ! 4, sort (channelValues img y x 1) ! 4,
            sort (channelValues img y x 2) ! 4, 255])"

definition storePixel :: "imageData \<Rightarrow> nat \<Rightarrow> nat \<Rightarrow> int list \<Rightarrow> int list" where
  "storePixel img y x newData =
     (let index = (y * width img + x) * 4; v = filteredPixel img y x
      in newData[index := v ! 0, index + 1 := v ! 1, index + 2 := v ! 2, index + 3 := v ! 3])"

text \<open>The loops over \<open>y\<close> and \<open>x\<close>, writing into \<^verbatim>\<open>newData\<close>.\<close>

definition medianLoops :: "imageData \<Rightarrow> int list \<Rightarrow> int list" where
  "medianLoops img newData =
     fold (\<lambda>y. fold (\<lambda>x. storePixel img y x) [0..<width img]) [0..<height img] newData"

definition applyMedianFilter :: "imageData \<Rightarrow> error + imageData" where
  "applyMedianFilter img =
     (case constructImageData (width img) (height img) of
        Inl e \<Rightarrow> Inl e
      | Inr newImageData \<Rightarrow>
          Inr (newImageData\<lparr>data := medianLoops img (data newImageData)\<rparr>))"

section \<open>RegionGrower, RegionMerger and the coloured raster: \<open>generatePbnImage\<close>\<close>

record options =
  colorThreshold :: real
  minRegionSize :: real
  thinnessThreshold :: real

text \<open>
  The region table \<^verbatim>\<open>initialRegions\<close> is an object keyed by the region ids: the
  association list of its entries in key order, which is the order of insertion.
\<close>

type_synonym regions = "(int \<times> region) list"

definition pixelColor :: "imageData \<Rightarrow> int \<Rightarrow> pixel" where
  "pixelColor img i =
     (of_int (data img ! nat (i * 4)), of_int (data img ! nat (i * 4 + 1)),
      of_int (data img ! nat (i * 4 + 2)))"

subsection \<open>1. Initial region finding\<close>

text \<open>
  One neighbour of the pixel \<open>(x, y)\<close> popped from the stack. The stack is a list with its
  top at the head.
\<close>

definition visitNeighbor ::
  "imageData \<Rightarrow> options \<Rightarrow> pixel \<Rightarrow> int \<Rightarrow> int \<Rightarrow> int \<Rightarrow> int \<Rightarrow> int list \<times> int list
     \<Rightarrow> int list \<times> int list" where
  "visitNeighbor img opts startPixelColor regionId x y neighborIndex ms =
     (case ms of (initialRegionMap, stack) \<Rightarrow>
        if 0 \<le> neighborIndex \<and> neighborIndex < int (length initialRegionMap)
           \<and> initialRegionMap ! nat neighborIndex = 0
        then
          (let isSameRow = (neighborIndex mod int (width img) = x
                            \<or> neighborIndex div int (width img) = y)
           in if isSameRow
              then
                (if euclideanDistance startPixelColor (pixelColor img neighborIndex)
                      < colorThreshold opts
                 then (initialRegionMap[nat neighborIndex := regionId], neighborIndex # stack)
                 else (initialRegionMap, stack))
              else (initialRegionMap, stack))
        else (initialRegionMap, stack))"

text \<open>The body of \<^verbatim>\<open>while (stack.length > 0)\<close> for the popped \<open>pixelIndex\<close>.\<close>

definition visitPixel ::
  "imageData \<Rightarrow> options \<Rightarrow> pixel \<Rightarrow> int \<Rightarrow> int list \<Rightarrow> region \<Rightarrow> int list
     \<Rightarrow> int list \<times> region \<times> int list" where
  "visitPixel img opts startPixelColor pixelIndex initialRegionMap currentRegion stack =
     (let x = pixelIndex mod int (width img);
          y = pixelIndex div int (width img);
          currentRegion' = currentRegion
            \<lparr>pixels := pixels currentRegion @ [pixelIndex],
             sumR := sumR currentRegion + data img ! nat (pixelIndex * 4),
             sumG := sumG currentRegion + data img ! nat (pixelIndex * 4 + 1),
             sumB := sumB currentRegion + data img ! nat (pixelIndex * 4 + 2),
             minX := (if x < minX currentRegion then x else minX currentRegion),
             maxX := (if x > maxX currentRegion then x else maxX currentRegion),
             minY := (if y < minY currentRegion then y else minY currentRegion),
             maxY := (if y > maxY currentRegion then y else maxY currentRegion)\<rparr>;
          neighbors = [pixelIndex - int (width img), pixelIndex + int (width img),
                       pixelIndex - 1, pixelIndex + 1];
          ms = fold (visitNeighbor img opts startPixelColor (id_r currentRegion) x y) neighbors
                 (initialRegionMap, stack)
      in (fst ms, currentRegion', snd ms))"

text \<open>
  The flood fill of one region. Nothing in the loop bounds the number of its
  iterations, so it is a partial function; that it returns is part of what is proved.
\<close>

partial_function (option) floodFill ::
  "imageData \<Rightarrow> options \<Rightarrow> pixel \<Rightarrow> int list \<Rightarrow> region \<Rightarrow> int list
     \<Rightarrow> (int list \<times> region) option" where
  "floodFill img opts startPixelColor initialRegionMap currentRegion stack =
     (case stack of
        [] \<Rightarrow> Some (initialRegionMap, currentRegion)
      | pixelIndex # rest \<Rightarrow>
          (let st = visitPixel img opts startPixelColor pixelIndex initialRegionMap
                      currentRegion rest
           in floodFill img opts startPixelColor (fst st) (fst (snd st)) (snd (snd st))))"

definition emptyRegion :: "imageData \<Rightarrow> int \<Rightarrow> region" where
  "emptyRegion img regionId =
     \<lparr>id_r = regionId, pixels = [], sumR = 0, sumG = 0, sumB = 0,
      minX = int (width img), minY = int (height img), maxX = - 1, maxY = - 1,
      color = None\<rparr>"

text \<open>
  The scan \<^verbatim>\<open>for (let i = 0; i < initialRegionMap.length; i++)\<close> over the indices still
  to visit; the state is the region map, the region table and the next region id.
\<close>

fun findRegionsFrom ::
  "imageData \<Rightarrow> options \<Rightarrow> nat list \<Rightarrow> int list \<times> regions \<times> int
     \<Rightarrow> (int list \<times> regions \<times> int) option" where
  "findRegionsFrom img opts [] st = Some st"
| "findRegionsFrom img opts (i # rest) (initialRegionMap, initialRegions, regionId) =
     (if initialRegionMap ! i = 0 then
        (case floodFill img opts (pixelColor img (int i)) (initialRegionMap[i := regionId])
                (emptyRegion img regionId) [int i] of
           None \<Rightarrow> None
         | Some (initialRegionMap', currentRegion) \<Rightarrow>
             findRegionsFrom img opts rest
               (initialRegionMap', initialRegions @ [(regionId, currentRegion)], regionId + 1))
      else findRegionsFrom img opts rest (initialRegionMap, initialRegions, regionId))"

definition findRegions :: "imageData \<Rightarrow> options \<Rightarrow> (int list \<times> regions \<times> int) option" where
  "findRegions img opts =
     findRegionsFrom img opts [0..<width img * height img]
       (replicate (width img * height img) 0, [], 1)"

subsection \<open>2. Averages and palette colours\<close>

fun assignColors :: "pixel option list \<Rightarrow> regions \<Rightarrow> error + regions" where
  "assignColors colors [] = Inr []"
| "assignColors colors ((i, region) # rest) =
     (if pixels region \<noteq> [] then
        (case findClosestColor
                (of_int (sumR region) / real (length (pixels region)),
                 of_int (sumG region) / real (length (pixels region)),
                 of_int (sumB region) / real (length (pixels region))) colors of
           Inl e \<Rightarrow> Inl e
         | Inr c \<Rightarrow>
             (case assignColors colors rest of
                Inl e \<Rightarrow> Inl e
              | Inr rest' \<Rightarrow> Inr ((i, region\<lparr>color := c\<rparr>) # rest')))
      else assignColors colors rest)"

subsection \<open>3. Merging\<close>

definition isSmall :: "options \<Rightarrow> region \<Rightarrow> bool" where
  "isSmall opts region \<longleftrightarrow> real (length (pixels region)) < minRegionSize opts"

text \<open>
  \<^verbatim>\<open>isThin\<close> as the code computes it: the guard reads the region's bounding box, the
  quotient the dimensions \<^verbatim>\<open>width\<close> and \<^verbatim>\<open>height\<close> of the image.
\<close>

definition isThin :: "imageData \<Rightarrow> options \<Rightarrow> region \<Rightarrow> bool" where
  "isThin img opts region \<longleftrightarrow>
     (let regionWidth = maxX region - minX region + 1;
          regionHeight = maxY region - minY region + 1
      in min regionWidth regionHeight > 0
         \<and> real (max (width img) (height img)) / real (min (width img) (height img))
             > thinnessThreshold opts)"

text \<open>
  The set \<^verbatim>\<open>neighborIds\<close> of a region, in insertion order: \<open>addNeighbor\<close> is the body
  of the loop over the four neighbours of a pixel.
\<close>

definition addNeighbor ::
  "int list \<Rightarrow> regions \<Rightarrow> region \<Rightarrow> int \<Rightarrow> int list \<Rightarrow> int list" where
  "addNeighbor initialRegionMap initialRegions region neighborIndex neighborIds =
     (if 0 \<le> neighborIndex \<and> neighborIndex < int (length initialRegionMap)
      then
        (let neighborId = initialRegionMap ! nat neighborIndex in
         if neighborId \<noteq> id_r region \<and> map_of initialRegions neighborId \<noteq> None
         then setAdd neighborId neighborIds else neighborIds)
      else neighborIds)"

definition neighborIdsOf :: "imageData \<Rightarrow> int list \<Rightarrow> regions \<Rightarrow> region \<Rightarrow> int list" where
  "neighborIdsOf img initialRegionMap initialRegions region =
     fold (\<lambda>pixelIndex.
        fold (addNeighbor initialRegionMap initialRegions region)
          [pixelIndex - int (width img), pixelIndex + int (width img),
           pixelIndex - 1, pixelIndex + 1])
       (pixels region) []"

text \<open>
  The choice of \<^verbatim>\<open>bestNeighborId\<close> over the neighbour ids still to visit. Region colours
  are results of \<open>findClosestColor\<close> on one palette, which returns the first colour of
  minimal distance: two of them are the same array exactly when they are equal.
\<close>

fun chooseNeighbor ::
  "regions \<Rightarrow> region \<Rightarrow> int list \<Rightarrow> real option \<Rightarrow> int \<Rightarrow> error + int" where
  "chooseNeighbor initialRegions region [] minDiff bestNeighborId = Inr bestNeighborId"
| "chooseNeighbor initialRegions region (neighborId # rest) minDiff bestNeighborId =
     (case map_of initialRegions neighborId of
        None \<Rightarrow> Inl (TypeError ''color'')
      | Some neighbor \<Rightarrow>
          if color neighbor = color region then Inr neighborId
          else
            (case euclideanDistanceU (color region) (color neighbor) of
               Inl e \<Rightarrow> Inl e
             | Inr diff \<Rightarrow>
                 if lessInf (Some diff) minDiff
                 then chooseNeighbor initialRegions region rest (Some diff) neighborId
                 else chooseNeighbor initialRegions region rest minDiff bestNeighborId))"

text \<open>The body of \<^verbatim>\<open>for (const id of sortedRegionIds)\<close>.\<close>

definition mergeStep ::
  "imageData \<Rightarrow> options \<Rightarrow> int \<Rightarrow> int list \<times> regions \<Rightarrow> error + int list \<times> regions" where
  "mergeStep img opts i st =
     (case st of (initialRegionMap, initialRegions) \<Rightarrow>
      (case map_of initialRegions i of
         None \<Rightarrow> Inr st
       | Some region \<Rightarrow>
           if \<not> isSmall opts region \<and> \<not> isThin img opts region then Inr st
           else
             (case chooseNeighbor initialRegions region
                     (neighborIdsOf img initialRegionMap initialRegions region) None (- 1) of
                Inl e \<Rightarrow> Inl e
              | Inr bestNeighborId \<Rightarrow>
                  if bestNeighborId \<noteq> - 1 then
                    (case map_of initialRegions bestNeighborId of
                       None \<Rightarrow> Inl (TypeError ''pixels'')
                     | Some targetRegion \<Rightarrow>
                         Inr (fold (\<lambda>pixelIndex m. m[nat pixelIndex := bestNeighborId])
                                (pixels region) initialRegionMap,
                              AList.delete i
                                (AList.update bestNeighborId
                                   (targetRegion
                                      \<lparr>pixels := pixels targetRegion @ pixels region,
                                       minX := min (minX targetRegion) (minX region),
                                       minY := min (minY targetRegion) (minY region),
                                       maxX := max (maxX targetRegion) (maxX region),
                                       maxY := max (maxY targetRegion) (maxY region)\<rparr>)
                                   initialRegions)))
                  else Inr st)))"

fun mergeRegions ::
  "imageData \<Rightarrow> options \<Rightarrow> int list \<Rightarrow> int list \<times> regions \<Rightarrow> error + int list \<times> regions" where
  "mergeRegions img opts [] st = Inr st"
| "mergeRegions img opts (i # rest) st =
     (case mergeStep img opts i st of
        Inl e \<Rightarrow> Inl e
      | Inr st' \<Rightarrow> mergeRegions img opts rest st')"

definition sortedRegionIds :: "regions \<Rightarrow> int list" where
  "sortedRegionIds initialRegions =
     map fst (sort_key (\<lambda>entry. length (pixels (snd entry))) initialRegions)"

subsection \<open>5. The coloured raster\<close>

fun paintPixels :: "int list \<Rightarrow> regions \<Rightarrow> nat list \<Rightarrow> int list \<Rightarrow> error + int list" where
  "paintPixels initialRegionMap initialRegions [] coloredData = Inr coloredData"
| "paintPixels initialRegionMap initialRegions (i # rest) coloredData =
     (let regionId = initialRegionMap ! i in
      if regionId > 0 \<and> map_of initialRegions regionId \<noteq> None then
        (case color (the (map_of initialRegions regionId)) of
           None \<Rightarrow> Inl (TypeError ''0'')
         | Some c \<Rightarrow>
             paintPixels initialRegionMap initialRegions rest
               (coloredData[i * 4 := toUint8Clamp (fst c),
                            i * 4 + 1 := toUint8Clamp (fst (snd c)),
                            i * 4 + 2 := toUint8Clamp (snd (snd c)),
                            i * 4 + 3 := 255]))
      else paintPixels initialRegionMap initialRegions rest coloredData)"

definition coloredImage :: "imageData \<Rightarrow> int list \<Rightarrow> regions \<Rightarrow> error + imageData" where
  "coloredImage img initialRegionMap initialRegions =
     (case constructImageData (width img) (height img) of
        Inl e \<Rightarrow> Inl e
      | Inr coloredImageData \<Rightarrow>
          (case paintPixels initialRegionMap initialRegions [0..<length initialRegionMap]
                  (data coloredImageData) of
             Inl e \<Rightarrow> Inl e
           | Inr coloredData \<Rightarrow> Inr (coloredImageData\<lparr>data := coloredData\<rparr>)))"

subsection \<open>The pipeline of \<open>generatePbnImage\<close>\<close>

text \<open>
  Steps 1 to 3: the region map and the region table after merging. \<open>None\<close> when the flood
  fill does not return.
\<close>

definition segmentImage ::
  "imageData \<Rightarrow> pixel option list \<Rightarrow> options \<Rightarrow> (error + int list \<times> regions) option" where
  "segmentImage img colors opts =
     (case findRegions img opts of
        None \<Rightarrow> None
      | Some (initialRegionMap, initialRegions, regionId) \<Rightarrow>
          Some (case assignColors colors initialRegions of
                  Inl e \<Rightarrow> Inl e
                | Inr initialRegions' \<Rightarrow>
                    mergeRegions img opts (sortedRegionIds initialRegions')
                      (initialRegionMap, initialRegions')))"

text \<open>
  \<^verbatim>\<open>generatePbnImage\<close>, for its result \<^verbatim>\<open>colored\<close>. Step 4 draws the outline raster
  \<^verbatim>\<open>pbn\<close> on a canvas of the host and changes neither the region map nor the table; it
  is not modelled.
\<close>

definition generatePbnImage ::
  "imageData \<Rightarrow> pixel option list \<Rightarrow> options \<Rightarrow> (error + imageData) option" where
  "generatePbnImage img colors opts =
     (case segmentImage img colors opts of
        None \<Rightarrow> None
      | Some (Inl e) \<Rightarrow> Some (Inl e)
      | Some (Inr (initialRegionMap, initialRegions)) \<Rightarrow>
          Some (coloredImage img initialRegionMap initialRegions))"

section \<open>The worker: \<open>onmessage\<close>\<close>

datatype response = Success "pixel option list" imageData | Error error

text \<open>
  The statements of the handler up to \<^verbatim>\<open>dominantColors\<close>: sampling, clustering with
  \<^verbatim>\<open>initialK = Math.min(k * 5, 50)\<close>, palette selection. \<open>fl\<close> is the rounding of the
  luminance, \<open>random\<close> the values of \<^verbatim>\<open>Math.random()\<close>.
\<close>

definition dominantColorsOf ::
  "(real \<Rightarrow> real) \<Rightarrow> (nat \<Rightarrow> real) \<Rightarrow> imageData \<Rightarrow> int
     \<Rightarrow> (error + pixel option list) option" where
  "dominantColorsOf fl random img k =
     (let allPixels = getPixels img;
          pixelSample = samplePixels allPixels 30000;
          initialK = min (k * 5) 50
      in case kmeans random pixelSample initialK of
           None \<Rightarrow> None
         | Some (Inl e) \<Rightarrow> Some (Inl e)
         | Some (Inr (centroids, clusters)) \<Rightarrow>
             Some (generateOptimalPalette fl centroids clusters k))"

text \<open>
  The handler: the \<^verbatim>\<open>try\<close> block posts the success message, the \<^verbatim>\<open>catch\<close> block the
  error message. \<open>None\<close> when a loop of the run does not return.
\<close>

definition onmessage ::
  "(real \<Rightarrow> real) \<Rightarrow> (nat \<Rightarrow> real) \<Rightarrow> imageData \<Rightarrow> options \<Rightarrow> int \<Rightarrow> response option" where
  "onmessage fl random img opts k =
     (case dominantColorsOf fl random img k of
        None \<Rightarrow> None
      | Some (Inl e) \<Rightarrow> Some (Error e)
      | Some (Inr dominantColors) \<Rightarrow>
          (case generatePbnImage img dominantColors opts of
             None \<Rightarrow> None
           | Some (Inl e) \<Rightarrow> Some (Error e)
           | Some (Inr colored) \<Rightarrow> Some (Success dominantColors colored)))"

section \<open>Predicates of the claims\<close>

text \<open>
  The thinness test in the words of the specification: the aspect ratio of the region's
  own bounding box, guarded against a degenerate dimension.
\<close>

definition isThinBoundingBox :: "options \<Rightarrow> region \<Rightarrow> bool" where
  "isThinBoundingBox opts region \<longleftrightarrow>
     (let regionWidth = maxX region - minX region + 1;
          regionHeight = maxY region - minY region + 1
      in min regionWidth regionHeight > 0
         \<and> real_of_int (max regionWidth regionHeight) / real_of_int (min regionWidth regionHeight)
             > thinnessThreshold opts)"


text \<open>
  A request is malformed when its raster has no pixel or its palette size is below 1.
  A run fails fast when it raises before a palette is produced: an input validation
  would be its first step.
\<close>

definition malformed :: "imageData \<Rightarrow> int \<Rightarrow> bool" where
  "malformed img k \<longleftrightarrow> width img = 0 \<or> height img = 0 \<or> k < 1"

definition failsFast :: "(real \<Rightarrow> real) \<Rightarrow> (nat \<Rightarrow> real) \<Rightarrow> imageData \<Rightarrow> int \<Rightarrow> bool" where
  "failsFast fl random img k \<longleftrightarrow> (\<exists>e. dominantColorsOf fl random img k = Some (Inl e))"



text \<open>
  A pixel is interior when it is not on the border of the raster. A raster is locally
  constant when the nine values of each colour channel in the window of every interior
  pixel are equal (to the value at the pixel), and interior-opaque when every interior
  pixel has alpha 255.
\<close>

definition interior :: "imageData \<Rightarrow> nat \<Rightarrow> nat \<Rightarrow> bool" where
  "interior img y x \<longleftrightarrow> 0 < x \<and> x + 1 < width img \<and> 0 < y \<and> y + 1 < height img"

definition locallyConstant :: "imageData \<Rightarrow> bool" where
  "locallyConstant img \<longleftrightarrow>
     (\<forall>y < height img. \<forall>x < width img. interior img y x \<longrightarrow>
        (\<forall>c < 3. \<forall>v \<in> set (channelValues img y x c).
           v = data img ! ((y * width img + x) * 4 + c)))"

definition interiorOpaque :: "imageData \<Rightarrow> bool" where
  "interiorOpaque img \<longleftrightarrow>
     (\<forall>y < height img. \<forall>x < width img. interior img y x \<longrightarrow>
        data img ! ((y * width img + x) * 4 + 3) = 255)"


abbreviation filteredData :: "imageData \<Rightarrow> int list" where
  "filteredData img \<equiv> medianLoops img (replicate (4 * (width img * height img)) 0)"

subsection \<open>Rectangular regions\<close>

text \<open>
  The pixel indices of the solid rectangle of width \<open>w\<close> and height \<open>h\<close> whose top left
  corner is \<open>(x0, y0)\<close>, in a raster of width \<open>W\<close>: the column of an index is
  \<open>p mod W\<close>, its row \<open>p div W\<close>.
\<close>

definition rectangle :: "int \<Rightarrow> int \<Rightarrow> int \<Rightarrow> int \<Rightarrow> int \<Rightarrow> int set" where
  "rectangle W x0 y0 w h =
     {p. x0 \<le> p mod W \<and> p mod W < x0 + w \<and> y0 \<le> p div W \<and> p div W < y0 + h}"

subsection \<open>Ownership of pixels\<close>

text \<open>
  \<open>owned m k\<close> are the pixel indices whose entry in the region map \<open>m\<close> is \<open>k\<close>. The
  region table \<open>rs\<close> owns the map when its keys are distinct and every region has its
  key as id, a positive id, and as pixels exactly the indices the map gives it, each
  once. The map is live when every entry is the id of a region of the table.
\<close>

definition owned :: "int list \<Rightarrow> int \<Rightarrow> int set" where
  "owned m k = {p. 0 \<le> p \<and> p < int (length m) \<and> m ! nat p = k}"

definition regionsOwn :: "int list \<Rightarrow> regions \<Rightarrow> bool" where
  "regionsOwn m rs \<longleftrightarrow>
     distinct (map fst rs) \<and>
     (\<forall>(k, r) \<in> set rs. id_r r = k \<and> 0 < k \<and> distinct (pixels r) \<and> set (pixels r) = owned m k)"

definition mapLive :: "int list \<Rightarrow> regions \<Rightarrow> bool" where
  "mapLive m rs \<longleftrightarrow> (\<forall>j < length m. m ! j \<noteq> 0 \<longrightarrow> map_of rs (m ! j) \<noteq> None)"

text \<open>
  The regions partition the image: the map has one entry per pixel, and every pixel is
  in the pixel list of exactly one region of the table, whose id is its map entry.
\<close>

definition partitionsImage :: "imageData \<Rightarrow> int list \<Rightarrow> regions \<Rightarrow> bool" where
  "partitionsImage img m rs \<longleftrightarrow>
     length m = width img * height img \<and>
     regionsOwn m rs \<and>
     (\<forall>i < width img * height img.
        (\<exists>!k. \<exists>r. (k, r) \<in> set rs \<and> int i \<in> set (pixels r)) \<and>
        (\<exists>r. (m ! i, r) \<in> set rs \<and> int i \<in> set (pixels r)))"

text \<open>The number of unassigned entries of a region map.\<close>

definition zeros :: "int list \<Rightarrow> nat" where
  "zeros m = length (filter (\<lambda>v. v = 0) m)"

text \<open>
  What the visit of neighbours may change, for the region id \<open>k\<close>: entries go from 0 to
  \<open>k\<close>, each such index is pushed once, and the pixels of the region together with the
  stack stay the indices the map gives to \<open>k\<close>.
\<close>

definition grows :: "int \<Rightarrow> int list \<times> int list \<Rightarrow> int list \<times> int list \<Rightarrow> bool" where
  "grows k st st' \<longleftrightarrow>
     length (fst st') = length (fst st) \<and>
     (\<forall>j < length (fst st). fst st' ! j = fst st ! j \<or> (fst st ! j = 0 \<and> fst st' ! j = k)) \<and>
     2 * zeros (fst st') + length (snd st') \<le> 2 * zeros (fst st) + length (snd st) \<and>
     (\<forall>P. distinct (P @ snd st) \<and> set P \<union> set (snd st) = owned (fst st) k \<longrightarrow>
          distinct (P @ snd st') \<and> set P \<union> set (snd st') = owned (fst st') k)"

text \<open>
  The state of the scan before index \<open>i\<close>: the table owns the map, the ids in use are
  below the next id, every entry is 0 or an id of the table, and no entry before \<open>i\<close>
  is 0.
\<close>

definition scanned :: "int list \<Rightarrow> regions \<Rightarrow> int \<Rightarrow> nat \<Rightarrow> bool" where
  "scanned m rs nid i \<longleftrightarrow>
     regionsOwn m rs \<and> 0 < nid \<and> (\<forall>k \<in> fst ` set rs. k < nid) \<and>
     (\<forall>j < length m. m ! j = 0 \<or> m ! j \<in> fst ` set rs) \<and>
     (\<forall>j < i. j < length m \<longrightarrow> m ! j \<noteq> 0)"

subsection \<open>The states of the merge pass\<close>

text \<open>
  The region map and the region table after the first \<open>n\<close> iterations of the merge
  loop; \<open>segmentImage\<close> is the state after the last one.
\<close>

definition mergedAfter ::
  "imageData \<Rightarrow> pixel option list \<Rightarrow> options \<Rightarrow> nat \<Rightarrow> (error + int list \<times> regions) option" where
  "mergedAfter img colors opts n =
     (case findRegions img opts of
        None \<Rightarrow> None
      | Some (initialRegionMap, initialRegions, regionId) \<Rightarrow>
          Some (case assignColors colors initialRegions of
                  Inl e \<Rightarrow> Inl e
                | Inr initialRegions' \<Rightarrow>
                    mergeRegions img opts (take n (sortedRegionIds initialRegions'))
                      (initialRegionMap, initialRegions')))"

text \<open>
  One merge step reassigns: the entries of a region the step deletes all move to the id
  of one region that is live after the step, and an entry of a region that stays live
  is unchanged.
\<close>

definition reassigned :: "int list \<times> regions \<Rightarrow> int list \<times> regions \<Rightarrow> bool" where
  "reassigned st st' \<longleftrightarrow>
     length (fst st') = length (fst st) \<and>
     (\<forall>k. map_of (snd st) k \<noteq> None \<and> map_of (snd st') k = None \<longrightarrow>
        (\<exists>t. map_of (snd st') t \<noteq> None \<and>
             (\<forall>j < length (fst st). fst st ! j = k \<longrightarrow> fst st' ! j = t))) \<and>
     (\<forall>j < length (fst st). map_of (snd st') (fst st ! j) \<noteq> None \<longrightarrow> fst st' ! j = fst st ! j)"

text \<open>
  The regions are coloured by the palette \<open>cs\<close>: with a colour of the palette, or all
  with \<^verbatim>\<open>undefined\<close> when the palette is empty. The invariant of the merge loop: the
  table owns the map, every entry of the map is an id of the table, and the regions are
  coloured by the palette.
\<close>

definition coloredBy :: "pixel list \<Rightarrow> regions \<Rightarrow> bool" where
  "coloredBy cs rs \<longleftrightarrow>
     (\<forall>(k, r) \<in> set rs. if cs = [] then color r = None else color r \<in> Some ` set cs)"

definition mergeInv :: "pixel list \<Rightarrow> int list \<times> regions \<Rightarrow> bool" where
  "mergeInv cs st \<longleftrightarrow>
     regionsOwn (fst st) (snd st) \<and>
     (\<forall>j < length (fst st). fst st ! j \<in> fst ` set (snd st)) \<and>
     coloredBy cs (snd st)"

subsection \<open>The painted raster\<close>

text \<open>
  The pixel \<open>i\<close> of the raster \<open>out\<close> is painted with the colour \<open>c\<close>: its bytes are the
  channels of \<open>c\<close> as the clamped byte array stores them, and its alpha is 255.
\<close>

definition paintedWith :: "imageData \<Rightarrow> nat \<Rightarrow> pixel \<Rightarrow> bool" where
  "paintedWith out i c \<longleftrightarrow>
     data out ! (i * 4) = toUint8Clamp (fst c) \<and>
     data out ! (i * 4 + 1) = toUint8Clamp (fst (snd c)) \<and>
     data out ! (i * 4 + 2) = toUint8Clamp (snd (snd c)) \<and>
     data out ! (i * 4 + 3) = 255"

text \<open>
  Every pixel of the raster is painted with the palette colour of the region that the
  final region map gives it, and that region holds the pixel.
\<close>

definition fullyPainted ::
  "imageData \<Rightarrow> pixel list \<Rightarrow> int list \<Rightarrow> regions \<Rightarrow> imageData \<Rightarrow> bool" where
  "fullyPainted img cs m rs out \<longleftrightarrow>
     width out = width img \<and> height out = height img \<and>
     length (data out) = 4 * (width img * height img) \<and>
     length m = width img * height img \<and>
     (\<forall>i < width img * height img.
        \<exists>r c. map_of rs (m ! i) = Some r \<and> int i \<in> set (pixels r) \<and>
              color r = Some c \<and> c \<in> set cs \<and> paintedWith out i c)"

section \<open>Properties of the PixelSampler\<close>

lemma sampleLoop_eq:
  "0 < step \<Longrightarrow>
   sampleLoop ps step i sample =
     sample @ map (\<lambda>j. ps ! (i + j * step)) [0..<(length ps - i + step - 1) div step]"
proof (induction ps step i sample rule: sampleLoop.induct)
  case (1 ps step i sample)
  show ?case
  proof (cases "i < length ps")
    case False
    with 1(2) have "(length ps - i + step - 1) div step = 0" by simp
    with False show ?thesis by (simp add: sampleLoop.simps [of ps step i])
  next
    case True
    let ?n = "length ps"
    have cnt: "(?n - i + step - 1) div step = Suc ((?n - (i + step) + step - 1) div step)"
    proof (cases "i + step \<le> ?n")
      case True
      define a where "a = ?n - (i + step) + step - 1"
      from True 1(2) have "?n - i + step - 1 = a + step" by (simp add: a_def)
      moreover have "(a + step) div step = Suc (a div step)" using 1(2) by simp
      ultimately show ?thesis by (simp add: a_def)
    next
      case False
      with True 1(2) have a: "?n - i + step - 1 < 2 * step" "step \<le> ?n - i + step - 1" by auto
      then have "(?n - i + step - 1) div step = 1"
        by (metis One_nat_def div_nat_eqI mult.right_neutral mult_2 mult_Suc_right)
      moreover from False have "(?n - (i + step) + step - 1) div step = 0" using 1(2) by simp
      ultimately show ?thesis by simp
    qed
    have "sampleLoop ps step i sample =
            sampleLoop ps step (i + step) (sample @ [ps ! i])"
      using True 1(2) by (simp add: sampleLoop.simps [of ps step i])
    also have "\<dots> = (sample @ [ps ! i]) @
        map (\<lambda>j. ps ! (i + step + j * step)) [0..<(?n - (i + step) + step - 1) div step]"
      using 1(1) True 1(2) by simp
    also have "\<dots> = sample @
        map (\<lambda>j. ps ! (i + j * step)) [0..<(?n - i + step - 1) div step]"
      unfolding cnt upt_conv_Cons [OF zero_less_Suc] map_Suc_upt [symmetric]
      by (simp add: ac_simps)
    finally show ?thesis .
  qed
qed

text \<open>
  Claim C4, as amended. For \<open>S \<ge> 1\<close>: a sequence of at most \<open>S\<close> pixels is returned
  unchanged; a longer one yields exactly the pixels at indices \<open>0, step, 2 step, \<dots>\<close> below
  \<open>N\<close> with \<open>step = N div S\<close>, which are \<open>\<lceil>N / step\<rceil>\<close> pixels, at least \<open>S\<close> of them
  (not \<open>min N S\<close>).
\<close>

theorem samplePixels_stride:
  assumes "1 \<le> S"
  shows "(length ps \<le> S \<longrightarrow> samplePixels ps S = ps) \<and>
         (S < length ps \<longrightarrow>
            samplePixels ps S =
              map (\<lambda>j. ps ! (j * (length ps div S)))
                [0..<(length ps + length ps div S - 1) div (length ps div S)] \<and>
            length (samplePixels ps S) =
              (length ps + length ps div S - 1) div (length ps div S) \<and>
            S \<le> length (samplePixels ps S))"
proof (intro conjI impI)
  assume "length ps \<le> S"
  then show "samplePixels ps S = ps" by (simp add: samplePixels_def)
next
  assume less: "S < length ps"
  let ?n = "length ps" and ?step = "length ps div S"
  from less assms have step: "0 < ?step" by (simp add: div_greater_zero_iff)
  from less assms show eq: "samplePixels ps S =
      map (\<lambda>j. ps ! (j * ?step)) [0..<(?n + ?step - 1) div ?step]"
    using sampleLoop_eq [OF step, of ps 0 "[]"] by (simp add: samplePixels_def)
  then show len: "length (samplePixels ps S) = (?n + ?step - 1) div ?step" by simp
  have "S * ?step \<le> ?n" by simp
  then have "S * ?step \<le> ?n + ?step - 1" using step by linarith
  then have "S \<le> (?n + ?step - 1) div ?step"
    using step by (metis div_le_mono div_mult_self_is_m)
  with len show "S \<le> length (samplePixels ps S)" by simp
qed

theorem samplePixels_stride_witness:
  "samplePixels [10, 11, 12, 13, 14, 15, 16 :: int] 3 = [10, 12, 14, 16]"
  using samplePixels_stride [of 3 "[10, 11, 12, 13, 14, 15, 16 :: int]"]
  by (simp add: upt_rec_numeral)

text \<open>
  The claim as stated gives the length \<open>min N S\<close>; five ps sampled with \<open>S = 3\<close> have
  \<open>step = 1\<close> and all five are returned.
\<close>

theorem samplePixels_length_counterexample:
  "length (samplePixels [10, 11, 12, 13, 14 :: int] 3) \<noteq> min (length [10, 11, 12, 13, 14 :: int]) 3"
  by (simp add: samplePixels_def sampleLoop.simps)


section \<open>Properties of the ColorClusterer\<close>

lemma initCentroids_done:
  "\<not> (int (length cs) < k \<and> length cs < length ps) \<Longrightarrow>
   initCentroids random ps k n cs used = Some (cs, n)"
  by (subst initCentroids.simps) auto

lemma initCentroids_fresh:
  "int (length cs) < k \<Longrightarrow> length cs < length ps \<Longrightarrow>
   randomIndex (random n) (length ps) \<notin> set used \<Longrightarrow>
   initCentroids random ps k n cs used =
     initCentroids random ps k (Suc n)
       (cs @ [nthU ps (randomIndex (random n) (length ps))])
       (used @ [randomIndex (random n) (length ps)])"
  by (subst initCentroids.simps) (simp add: Let_def)

lemma randomIndex_one: "0 \<le> r \<Longrightarrow> r < 1 \<Longrightarrow> randomIndex r (Suc 0) = 0"
  by (simp add: randomIndex_def)

lemma kmeans_single_pixel:
  assumes "0 \<le> random 0" "random 0 < 1" "2 \<le> k"
  shows "kmeans random [p] k = Some (Inl (TypeError ''0''))"
proof -
  have r0: "randomIndex (random 0) (length [p]) = 0"
    using assms(1,2) by (simp add: randomIndex_one)
  have "initCentroids random [p] k 0 [] [] = initCentroids random [p] k (Suc 0) [Some p] [0]"
    using assms(3) initCentroids_fresh [of "[]" k "[p]" random 0 "[]"]
    unfolding r0 by (simp add: nthU_def)
  also have "\<dots> = Some ([Some p], Suc 0)"
    by (simp add: initCentroids_done)
  finally have init: "initCentroids random [p] k 0 [] [] = Some ([Some p], Suc 0)" .
  from assms(3) obtain m where m: "nat k = Suc (Suc m)"
    by (metis Suc_nat_eq_nat_zadd1 add_Suc_right int_nat_eq nat_2 nat_mono numeral_2_eq_2
        le_Suc_ex plus_nat.simps(2))
  have idx: "[0..<Suc (Suc m)] = 0 # 1 # [2..<Suc (Suc m)]"
    by (simp add: upt_conv_Cons numeral_2_eq_2)
  have "closestCentroidIndex p [Some p] [0..<Suc (Suc m)] None 0 = Inl (TypeError ''0'')"
    unfolding idx by (simp add: euclideanDistanceU_def atU_def lessInf_def)
  then have "assignPixels [p] [Some p] (Suc (Suc m)) (replicate (Suc (Suc m)) [])
      = Inl (TypeError ''0'')" by simp
  then have "kmeansLoop 30 random [p] (Suc (Suc m)) [Some p] [] (Suc 0) = Inl (TypeError ''0'')"
    by (simp add: numeral_eq_Suc)
  with init m show ?thesis by (simp add: kmeans_def)
qed

text \<open>
  Claim C5 fails on the code. A sample of one pixel clustered with \<open>k \<ge> 2\<close> raises:
  initialisation stops at one centroid, and the assignment loop reads \<^verbatim>\<open>centroids[1]\<close>,
  which is \<^verbatim>\<open>undefined\<close>. The worker clusters with \<^verbatim>\<open>initialK = min(5 k, 50)\<close>, so a
  1x1 raster with \<open>k = 1\<close> ends in the error response.
\<close>

theorem kmeans_fewer_pixels_than_k_raises:
  assumes "0 \<le> random 0" "random 0 < 1" "2 \<le> k"
  shows "kmeans random [p] k = Some (Inl (TypeError ''0'')) \<and>
         onmessage fl random \<lparr>width = 1, height = 1, data = [r, g, b, a]\<rparr> opts 1
           = Some (Error (TypeError ''0''))"
proof
  show "kmeans random [p] k = Some (Inl (TypeError ''0''))"
    using assms by (rule kmeans_single_pixel)
  have "getPixels \<lparr>width = 1, height = 1, data = [r, g, b, a]\<rparr>
      = [(of_int r, of_int g, of_int b)]"
    by (simp add: getPixels_def)
  then show "onmessage fl random \<lparr>width = 1, height = 1, data = [r, g, b, a]\<rparr> opts 1
      = Some (Error (TypeError ''0''))"
    using kmeans_single_pixel [of random 5 "(of_int r, of_int g, of_int b)"] assms(1,2)
    by (simp add: onmessage_def dominantColorsOf_def samplePixels_def)
qed

theorem kmeans_fewer_pixels_than_k_raises_witness:
  "kmeans (\<lambda>n. 0) [(10, 20, 30)] 2 = Some (Inl (TypeError ''0'')) \<and>
   onmessage (\<lambda>x. x) (\<lambda>n. 0) \<lparr>width = 1, height = 1, data = [10, 20, 30, 255]\<rparr>
       \<lparr>colorThreshold = 10, minRegionSize = 1, thinnessThreshold = 3\<rparr> 1
     = Some (Error (TypeError ''0''))"
  using kmeans_fewer_pixels_than_k_raises [where random = "\<lambda>n. 0" and k = 2
      and p = "(10, 20, 30)" and r = 10 and g = 20 and b = 30 and a = 255 and fl = "\<lambda>x. x"
      and opts = "\<lparr>colorThreshold = 10, minRegionSize = 1, thinnessThreshold = 3\<rparr>"]
  by simp

section \<open>Properties of the PaletteOptimizer\<close>

lemma sortByLuminance_defined:
  "sortByLuminance fl (map Some ps) = map Some (sort_key (luminance fl) ps)"
proof -
  have "List.map_filter (\<lambda>x. x) (map Some ps) = ps"
    by (induction ps) (simp_all add: List.map_filter_simps)
  moreover have "filter (\<lambda>x. x = None) (map Some ps) = []"
    by (induction ps) simp_all
  ultimately show ?thesis by (simp add: sortByLuminance_def)
qed

text \<open>
  The order of the result follows the rounded keys: two centroids come out in the order
  of their keys under \<open>fl\<close>, whatever their exact luminances are. (The exact luminances
  of \<open>(14, 13, 0)\<close> and \<open>(0, 0, 170)\<close> are equal; in double arithmetic the key of the
  first is the smaller one.)
\<close>

lemma generateOptimalPalette_order_by_rounded_key:
  assumes "luminance fl a < luminance fl b"
  shows "generateOptimalPalette fl [Some b, Some a] cls 2 = Inr [Some a, Some b]"
    and "generateOptimalPalette fl [Some a, Some b] cls 2 = Inr [Some a, Some b]"
  using assms sortByLuminance_defined [of fl "[b, a]"] sortByLuminance_defined [of fl "[a, b]"]
  by (simp_all add: generateOptimalPalette_def)










section \<open>Properties of the worker\<close>

lemma newCentroids_empty_sample:
  "\<forall>i \<in> set idxs. cls ! i = [] \<Longrightarrow>
   newCentroids random [] cls idxs n acc
     = (acc @ replicate (length idxs) None, n + length idxs)"
proof (induction idxs arbitrary: n acc)
  case Nil
  then show ?case by simp
next
  case (Cons i idxs)
  then show ?case by (simp add: nthU_def replicate_app_Cons_same)
qed

lemma atU_undefined: "\<forall>c \<in> set cs. c = None \<Longrightarrow> atU cs i = None"
  by (simp add: atU_def)

lemma converged_undefined:
  "\<forall>c \<in> set lastCs. c = None \<Longrightarrow>
   converged lastCs cs idxs = Inr (idxs = [])"
  by (cases idxs) (simp_all add: atU_undefined)

lemma kmeansLoop_empty_sample:
  assumes "\<forall>c \<in> set cs. c = None" "0 < K"
  shows "kmeansLoop (Suc fuel) random [] K cs cls n
           = Inr (replicate K None, replicate K [])"
  using assms(1)
proof (induction fuel arbitrary: cs cls n)
  case 0
  have "newCentroids random [] (replicate K []) [0..<K] n []
      = (replicate K None, n + K)"
    using newCentroids_empty_sample [of "[0..<K]" "replicate K []" random n "[]"] by simp
  moreover have "converged cs (replicate K None) [0..<K] = Inr False"
    using converged_undefined [OF 0] assms(2) by simp
  ultimately show ?case by simp
next
  case (Suc fuel)
  have nc: "newCentroids random [] (replicate K []) [0..<K] n []
      = (replicate K None, n + K)"
    using newCentroids_empty_sample [of "[0..<K]" "replicate K []" random n "[]"] by simp
  have cv: "converged cs (replicate K None) [0..<K] = Inr False"
    using converged_undefined [OF Suc.prems] assms(2) by simp
  have "kmeansLoop (Suc fuel) random [] K (replicate K None) (replicate K []) (n + K)
      = Inr (replicate K None, replicate K [])"
    by (rule Suc.IH) simp
  with nc cv show ?case by (simp del: kmeansLoop.simps(2) add: kmeansLoop.simps(2) [of "Suc fuel"])
qed

lemma kmeans_empty_sample:
  "kmeans random [] k = Some (Inr (replicate (nat k) None, replicate (nat k) []))"
proof (cases "0 < nat k")
  case True
  have "kmeansLoop (Suc 29) random [] (nat k) [] [] 0
      = Inr (replicate (nat k) None, replicate (nat k) [])"
    by (rule kmeansLoop_empty_sample) (use True in simp_all)
  then show ?thesis by (simp add: kmeans_def initCentroids_done)
next
  case False
  then have "nat k = 0" by simp
  then show ?thesis by (simp add: kmeans_def initCentroids_done numeral_eq_Suc)
qed

lemma weightedCentroids_empty_clusters:
  "weightedCentroids cs (replicate m []) = []"
  by (auto simp add: weightedCentroids_def filter_empty_conv nthU_def)

lemma generateOptimalPalette_empty_clusters:
  "\<exists>palette. generateOptimalPalette fl cs (replicate m []) k = Inr palette"
  by (simp add: generateOptimalPalette_def weightedCentroids_empty_clusters)

lemma dominantColorsOf_zero_area:
  assumes "data img = []"
  shows "\<exists>palette. dominantColorsOf fl random img k = Some (Inr palette)"
proof -
  have "getPixels img = []" using assms by (simp add: getPixels_def)
  then show ?thesis
    using generateOptimalPalette_empty_clusters
    by (simp add: dominantColorsOf_def samplePixels_def kmeans_empty_sample)
qed

lemma generatePbnImage_zero_area:
  assumes "width img = 0 \<or> height img = 0"
  shows "generatePbnImage img colors opts = Some (Inl IndexSizeError)"
proof -
  from assms have "width img * height img = 0" by auto
  then have "findRegions img opts = Some ([], [], 1)" by (simp add: findRegions_def)
  then have "segmentImage img colors opts = Some (Inr ([], []))"
    by (simp add: segmentImage_def sortedRegionIds_def)
  then show ?thesis
    using assms by (auto simp add: generatePbnImage_def coloredImage_def constructImageData_def)
qed

lemma sampleLoop_nonempty:
  assumes "0 < step" "i < length ps"
  shows "sampleLoop ps step i sample \<noteq> []"
  using assms by (subst sampleLoop.simps) (simp add: sampleLoop_eq)

lemma samplePixels_nonempty: "ps \<noteq> [] \<Longrightarrow> samplePixels ps (numeral n) \<noteq> []"
proof -
  assume ne: "ps \<noteq> []"
  show ?thesis
  proof (cases "length ps \<le> numeral n")
    case True
    with ne show ?thesis by (simp add: samplePixels_def)
  next
    case False
    then have "0 < length ps div numeral n" by (simp add: div_greater_zero_iff)
    with ne False show ?thesis by (simp add: samplePixels_def sampleLoop_nonempty)
  qed
qed

lemma kmeans_no_clusters:
  assumes "ps \<noteq> []" "k \<le> 0"
  shows "kmeans random ps k = Some (Inl (TypeError ''push''))"
proof -
  from assms(1) obtain p rest where ps: "ps = p # rest" by (cases ps) auto
  have "kmeansLoop 30 random ps 0 [] [] 0 = Inl (TypeError ''push'')"
    unfolding ps by (simp add: numeral_eq_Suc)
  with assms(2) show ?thesis by (simp add: kmeans_def initCentroids_done)
qed

lemma getPixels_nonempty: "wellFormed img \<Longrightarrow> getPixels img \<noteq> []"
proof -
  assume "wellFormed img"
  then have "0 < width img * height img" "length (data img) = 4 * (width img * height img)"
    by (simp_all add: wellFormed_def)
  then have "0 < length (data img) div 4" by simp
  then show ?thesis by (simp add: getPixels_def)
qed

text \<open>
  Claim C8, as amended. The handler validates nothing. A request with \<open>k < 1\<close> and a
  raster of at least one pixel ends in the error response carrying the \<^verbatim>\<open>TypeError\<close>
  that the clusterer raises at its first cluster assignment. For a raster without pixels
  the sampler, the clusterer and the palette optimizer complete without an error, and
  the run ends in the error response carrying the \<^verbatim>\<open>IndexSizeError\<close> that the host's
  \<^verbatim>\<open>ImageData\<close> constructor raises in the last stage.
\<close>

theorem onmessage_malformed_input:
  "(wellFormed img \<and> k < 1 \<longrightarrow>
      onmessage fl random img opts k = Some (Error (TypeError ''push''))) \<and>
   ((width img = 0 \<or> height img = 0) \<and> data img = [] \<longrightarrow>
      (\<exists>palette. dominantColorsOf fl random img k = Some (Inr palette)) \<and>
      onmessage fl random img opts k = Some (Error IndexSizeError))"
proof (intro conjI impI)
  assume a: "wellFormed img \<and> k < 1"
  then have "samplePixels (getPixels img) 30000 \<noteq> []"
    by (intro samplePixels_nonempty getPixels_nonempty) simp
  moreover from a have "min (k * 5) 50 \<le> 0" by simp
  ultimately have "kmeans random (samplePixels (getPixels img) 30000) (min (k * 5) 50)
      = Some (Inl (TypeError ''push''))"
    by (rule kmeans_no_clusters)
  then show "onmessage fl random img opts k = Some (Error (TypeError ''push''))"
    by (simp add: onmessage_def dominantColorsOf_def)
next
  assume a: "(width img = 0 \<or> height img = 0) \<and> data img = []"
  then show "\<exists>palette. dominantColorsOf fl random img k = Some (Inr palette)"
    by (intro dominantColorsOf_zero_area) simp
  then obtain palette where "dominantColorsOf fl random img k = Some (Inr palette)" by blast
  then show "onmessage fl random img opts k = Some (Error IndexSizeError)"
    using a by (simp add: onmessage_def generatePbnImage_zero_area)
qed

theorem onmessage_malformed_input_witness:
  "onmessage (\<lambda>x. x) (\<lambda>n. 0) \<lparr>width = 1, height = 1, data = [10, 20, 30, 255]\<rparr>
       \<lparr>colorThreshold = 10, minRegionSize = 1, thinnessThreshold = 3\<rparr> 0
     = Some (Error (TypeError ''push'')) \<and>
   onmessage (\<lambda>x. x) (\<lambda>n. 0) \<lparr>width = 0, height = 0, data = []\<rparr>
       \<lparr>colorThreshold = 10, minRegionSize = 1, thinnessThreshold = 3\<rparr> 1
     = Some (Error IndexSizeError)"
  using onmessage_malformed_input [where img = "\<lparr>width = 1, height = 1, data = [10, 20, 30, 255]\<rparr>"
      and k = 0 and fl = "\<lambda>x. x" and random = "\<lambda>n. 0"
      and opts = "\<lparr>colorThreshold = 10, minRegionSize = 1, thinnessThreshold = 3\<rparr>"]
    onmessage_malformed_input [where img = "\<lparr>width = 0, height = 0, data = []\<rparr>"
      and k = 1 and fl = "\<lambda>x. x" and random = "\<lambda>n. 0"
      and opts = "\<lparr>colorThreshold = 10, minRegionSize = 1, thinnessThreshold = 3\<rparr>"]
  by (simp add: wellFormed_def)

text \<open>
  The claim as stated fails for the raster without pixels and \<open>k = 1\<close>: the request is
  malformed, and the run raises nothing before its palette, which is empty.
\<close>

theorem onmessage_fails_fast_counterexample:
  "malformed \<lparr>width = 0, height = 0, data = []\<rparr> 1 \<and>
   dominantColorsOf (\<lambda>x. x) (\<lambda>n. 0) \<lparr>width = 0, height = 0, data = []\<rparr> 1 = Some (Inr []) \<and>
   \<not> failsFast (\<lambda>x. x) (\<lambda>n. 0) \<lparr>width = 0, height = 0, data = []\<rparr> 1"
proof -
  have "dominantColorsOf (\<lambda>x. x) (\<lambda>n. 0) \<lparr>width = 0, height = 0, data = []\<rparr> 1 = Some (Inr [])"
    by (simp add: dominantColorsOf_def getPixels_def samplePixels_def kmeans_empty_sample
        generateOptimalPalette_def weightedCentroids_empty_clusters sortByLuminance_def)
  then show ?thesis by (simp add: malformed_def failsFast_def)
qed

section \<open>Properties of the Smoother\<close>

lemma div4_eq: "q * 4 \<le> k \<Longrightarrow> k < q * 4 + 4 \<Longrightarrow> k div 4 = (q::nat)"
  by (rule div_nat_eqI) simp_all

lemma mod4_eq: "q * 4 \<le> k \<Longrightarrow> k < q * 4 + 4 \<Longrightarrow> k mod 4 = k - (q::nat) * 4"
  using div4_eq [of q k] minus_mult_div_eq_mod [of k 4] by (simp add: mult.commute)

lemma div4_bounds: "a * 4 \<le> k \<Longrightarrow> k < b * 4 \<Longrightarrow> (a::nat) \<le> k div 4 \<and> k div 4 < b"
  by (simp add: less_eq_div_iff_mult_less_eq div_less_iff_less_mult)

lemma length_storePixel [simp]: "length (storePixel img y x nd) = length nd"
  by (simp add: storePixel_def Let_def)

lemma length_filteredPixel [simp]: "length (filteredPixel img y x) = 4"
  by (simp add: filteredPixel_def Let_def)

lemma storePixel_nth:
  assumes "(y * width img + x) * 4 + 3 < length nd"
  shows "storePixel img y x nd ! k =
     (if (y * width img + x) * 4 \<le> k \<and> k < (y * width img + x) * 4 + 4
      then filteredPixel img y x ! (k - (y * width img + x) * 4) else nd ! k)"
proof -
  let ?i = "(y * width img + x) * 4"
  consider "k < ?i" | "k = ?i" | "k = ?i + 1" | "k = ?i + 2" | "k = ?i + 3" | "?i + 4 \<le> k"
    by linarith
  then show ?thesis using assms
    by cases (simp_all add: storePixel_def Let_def)
qed

lemma row_fold_nth:
  assumes "n \<le> width img" "y < height img" "length nd = 4 * (width img * height img)"
  shows "length (fold (\<lambda>x. storePixel img y x) [0..<n] nd) = length nd \<and>
     fold (\<lambda>x. storePixel img y x) [0..<n] nd ! k =
       (if y * width img * 4 \<le> k \<and> k < (y * width img + n) * 4
        then filteredPixel img y ((k div 4) mod width img) ! (k mod 4) else nd ! k)"
  using assms(1)
proof (induction n arbitrary: k)
  case 0
  then show ?case by simp
next
  case (Suc n)
  let ?W = "width img"
  let ?r = "fold (\<lambda>x. storePixel img y x) [0..<n] nd"
  from Suc have IH: "length ?r = length nd"
    "\<And>k. ?r ! k = (if y * ?W * 4 \<le> k \<and> k < (y * ?W + n) * 4
        then filteredPixel img y ((k div 4) mod ?W) ! (k mod 4) else nd ! k)"
    by simp_all
  from Suc.prems have n: "n < ?W" by simp
  have "y * ?W + n < ?W * height img"
  proof -
    have "y * ?W + n < y * ?W + ?W" using n by simp
    also have "\<dots> = Suc y * ?W" by simp
    also have "\<dots> \<le> height img * ?W" using assms(2) by (intro mult_le_mono1) simp
    finally show ?thesis by (simp add: mult.commute)
  qed
  then have bound: "(y * ?W + n) * 4 + 3 < length ?r" using IH(1) assms(3) by simp
  have step: "fold (\<lambda>x. storePixel img y x) [0..<Suc n] nd = storePixel img y n ?r" by simp
  show ?case
  proof (intro conjI)
    show "length (fold (\<lambda>x. storePixel img y x) [0..<Suc n] nd) = length nd"
      unfolding step using IH(1) by simp
    show "fold (\<lambda>x. storePixel img y x) [0..<Suc n] nd ! k =
       (if y * ?W * 4 \<le> k \<and> k < (y * ?W + Suc n) * 4
        then filteredPixel img y ((k div 4) mod ?W) ! (k mod 4) else nd ! k)"
    proof (cases "(y * ?W + n) * 4 \<le> k \<and> k < (y * ?W + n) * 4 + 4")
      case True
      then have kd: "k div 4 = y * ?W + n" by (intro div4_eq) simp_all
      then have "(k div 4) mod ?W = n" using n by simp
      moreover have "k mod 4 = k - (y * ?W + n) * 4"
        using True by (intro mod4_eq) simp_all
      moreover have "y * ?W * 4 \<le> k" using True by simp
      ultimately show ?thesis unfolding step storePixel_nth [OF bound] using True by simp
    next
      case False
      then show ?thesis unfolding step storePixel_nth [OF bound] IH(2) by auto
    qed
  qed
qed

lemma image_fold_nth:
  assumes "m \<le> height img" "length nd = 4 * (width img * height img)"
  shows "length (fold (\<lambda>y. fold (\<lambda>x. storePixel img y x) [0..<width img]) [0..<m] nd) = length nd \<and>
     fold (\<lambda>y. fold (\<lambda>x. storePixel img y x) [0..<width img]) [0..<m] nd ! k =
       (if k < m * width img * 4
        then filteredPixel img ((k div 4) div width img) ((k div 4) mod width img) ! (k mod 4)
        else nd ! k)"
  using assms(1)
proof (induction m arbitrary: k)
  case 0
  then show ?case by simp
next
  case (Suc m)
  let ?W = "width img"
  let ?row = "\<lambda>y. fold (\<lambda>x. storePixel img y x) [0..<?W]"
  let ?r = "fold ?row [0..<m] nd"
  from Suc have IH: "length ?r = length nd"
    "\<And>k. ?r ! k = (if k < m * ?W * 4
        then filteredPixel img ((k div 4) div ?W) ((k div 4) mod ?W) ! (k mod 4) else nd ! k)"
    by simp_all
  from Suc.prems have m: "m < height img" by simp
  have len: "length ?r = 4 * (?W * height img)" using IH(1) assms(2) by simp
  note row = row_fold_nth [OF le_refl m len]
  have step: "fold ?row [0..<Suc m] nd = ?row m ?r" by simp
  show ?case
  proof (intro conjI)
    show "length (fold ?row [0..<Suc m] nd) = length nd"
      unfolding step using row IH(1) by simp
    show "fold ?row [0..<Suc m] nd ! k =
       (if k < Suc m * ?W * 4
        then filteredPixel img ((k div 4) div ?W) ((k div 4) mod ?W) ! (k mod 4) else nd ! k)"
    proof (cases "m * ?W * 4 \<le> k \<and> k < (m * ?W + ?W) * 4")
      case True
      then have "m * ?W \<le> k div 4" "k div 4 < m * ?W + ?W"
        using div4_bounds [of "m * ?W" k "m * ?W + ?W"] by simp_all
      then have "(k div 4) div ?W = m"
        by (metis div_nat_eqI mult.commute mult_Suc_right add.commute)
      with True show ?thesis unfolding step using row [THEN conjunct2, of k] by simp
    next
      case False
      then show ?thesis unfolding step using row [THEN conjunct2, of k] IH(2) [of k] by auto
    qed
  qed
qed

lemma filteredData_nth:
  assumes "k < 4 * (width img * height img)"
  shows "filteredData img ! k =
     filteredPixel img ((k div 4) div width img) ((k div 4) mod width img) ! (k mod 4)"
  using image_fold_nth [OF le_refl, where img = img and nd = "replicate (4 * (width img * height img)) 0" and k = k] assms
  by (simp add: medianLoops_def mult.commute)

lemma filteredData_length:
  "length (filteredData img) = 4 * (width img * height img)"
  using image_fold_nth [OF le_refl, where img = img and nd = "replicate (4 * (width img * height img)) 0" and k = 0]
  by (simp add: medianLoops_def)

lemma applyMedianFilter_wellFormed:
  assumes "wellFormed img"
  shows "applyMedianFilter img =
     Inr \<lparr>width = width img, height = height img, data = filteredData img\<rparr>"
  using assms by (simp add: applyMedianFilter_def constructImageData_def wellFormed_def)

lemma length_channelValues [simp]: "length (channelValues img y x c) = 9"
  by (simp add: channelValues_def)

lemma median_of_constant:
  assumes "length xs = 9" "\<forall>v \<in> set xs. v = (a::int)"
  shows "sort xs ! 4 = a"
proof -
  have "sort xs ! 4 \<in> set (sort xs)" using assms(1) by (intro nth_mem) simp
  then show ?thesis using assms(2) by simp
qed

lemma pixel_index_bound:
  assumes "y < height img" "x < width img"
  shows "(y * width img + x) * 4 + 3 < 4 * (width img * height img)"
proof -
  have "y * width img + x < y * width img + width img" using assms(2) by simp
  also have "\<dots> = Suc y * width img" by simp
  also have "\<dots> \<le> height img * width img" using assms(1) by (intro mult_le_mono1) simp
  finally show ?thesis by (simp add: mult.commute)
qed

lemma filteredPixel_interior:
  "interior img y x \<Longrightarrow>
   filteredPixel img y x =
     [sort (channelValues img y x 0) ! 4, sort (channelValues img y x 1) ! 4,
      sort (channelValues img y x 2) ! 4, 255]"
  by (simp add: filteredPixel_def interior_def Let_def)

lemma filteredPixel_border:
  "\<not> interior img y x \<Longrightarrow> y < height img \<Longrightarrow> x < width img \<Longrightarrow>
   filteredPixel img y x =
     [data img ! ((y * width img + x) * 4), data img ! ((y * width img + x) * 4 + 1),
      data img ! ((y * width img + x) * 4 + 2), data img ! ((y * width img + x) * 4 + 3)]"
proof -
  assume "\<not> interior img y x" "y < height img" "x < width img"
  then have "x = 0 \<or> x + 1 = width img \<or> y = 0 \<or> y + 1 = height img"
    unfolding interior_def by linarith
  then show ?thesis unfolding filteredPixel_def Let_def by (simp only: if_True)
qed

lemma nth_3_cases: "c < 3 \<Longrightarrow> [a0, a1, a2, a3] ! c = (if c = 0 then a0 else if c = 1 then a1 else a2)"
  by (cases c) (auto simp add: nth_Cons split: nat.splits)

lemma filteredPixel_rgb:
  assumes "locallyConstant img" "y < height img" "x < width img" "c < 3"
  shows "filteredPixel img y x ! c = data img ! ((y * width img + x) * 4 + c)"
proof (cases "interior img y x")
  case True
  have med: "sort (channelValues img y x c') ! 4 = data img ! ((y * width img + x) * 4 + c')"
    if "c' < 3" for c'
  proof -
    from assms True that have "\<forall>v \<in> set (channelValues img y x c').
        v = data img ! ((y * width img + x) * 4 + c')"
      unfolding locallyConstant_def by blast
    then show ?thesis by (intro median_of_constant) simp_all
  qed
  from assms(4) consider "c = 0" | "c = 1" | "c = 2" by linarith
  then show ?thesis
  proof cases
    case 1 then show ?thesis using med [of 0] by (simp add: filteredPixel_interior [OF True])
  next
    case 2 then show ?thesis using med [of 1] by (simp add: filteredPixel_interior [OF True])
  next
    case 3 then show ?thesis using med [of 2] by (simp add: filteredPixel_interior [OF True])
  qed
next
  case False
  from assms(4) consider "c = 0" | "c = 1" | "c = 2" by linarith
  then show ?thesis
    by cases (simp_all add: filteredPixel_border [OF False assms(2,3)])
qed

lemma filteredPixel_alpha:
  assumes "y < height img" "x < width img"
  shows "filteredPixel img y x ! 3 =
     (if interior img y x then 255 else data img ! ((y * width img + x) * 4 + 3))"
proof (cases "interior img y x")
  case True
  then show ?thesis by (simp add: filteredPixel_interior)
next
  case False
  then show ?thesis by (simp add: filteredPixel_border [OF False assms])
qed

lemma filteredData_pixel:
  assumes "y < height img" "x < width img" "c < 4"
  shows "filteredData img ! ((y * width img + x) * 4 + c) = filteredPixel img y x ! c"
proof -
  let ?k = "(y * width img + x) * 4 + c"
  have "?k < 4 * (width img * height img)"
    using pixel_index_bound [OF assms(1,2)] assms(3) by simp
  moreover have "?k div 4 = y * width img + x"
    using assms(3) by (simp del: distrib_right_numeral)
  moreover have "?k mod 4 = c"
    using assms(3) by (simp del: distrib_right_numeral)
  ultimately show ?thesis using assms(2) by (simp add: filteredData_nth)
qed

lemma data_eq_iff_pixels:
  assumes "length d = 4 * (width img * height img)" "length d' = 4 * (width img * height img)"
  shows "d = d' \<longleftrightarrow>
     (\<forall>y < height img. \<forall>x < width img. \<forall>c < 4.
        d ! ((y * width img + x) * 4 + c) = d' ! ((y * width img + x) * 4 + c))"
proof
  assume "d = d'"
  then show "\<forall>y < height img. \<forall>x < width img. \<forall>c < 4.
        d ! ((y * width img + x) * 4 + c) = d' ! ((y * width img + x) * 4 + c)" by simp
next
  assume px: "\<forall>y < height img. \<forall>x < width img. \<forall>c < 4.
        d ! ((y * width img + x) * 4 + c) = d' ! ((y * width img + x) * 4 + c)"
  show "d = d'"
  proof (rule nth_equalityI)
    show "length d = length d'" using assms by simp
  next
    fix k assume "k < length d"
    then have k: "k < 4 * (width img * height img)" using assms(1) by simp
    then have W: "0 < width img" by (cases "width img") simp_all
    let ?p = "k div 4"
    from k have p: "?p < width img * height img" by simp
    then have y: "?p div width img < height img"
      by (simp add: less_mult_imp_div_less mult.commute)
    have x: "?p mod width img < width img" using W by simp
    have c: "k mod 4 < 4" by simp
    have "?p div width img * width img + ?p mod width img = ?p" by simp
    then have "(?p div width img * width img + ?p mod width img) * 4 + k mod 4 = k"
      by (simp only: div_mult_mod_eq)
    with px [rule_format, OF y x c] show "d ! k = d' ! k" by simp
  qed
qed

text \<open>
  Claim C9, as amended. On a well-formed raster whose every 3x3 window is constant per
  colour channel, the filter returns a raster of the same dimensions with the R, G and B
  bytes of every pixel and the alpha of the border pixels unchanged, and the alpha of
  every interior pixel set to 255. So the result is the input itself exactly when the
  interior pixels of the input are opaque.
\<close>

theorem applyMedianFilter_locallyConstant:
  assumes "wellFormed img" "locallyConstant img"
  shows "\<exists>out. applyMedianFilter img = Inr out \<and>
         width out = width img \<and> height out = height img \<and>
         (\<forall>y < height img. \<forall>x < width img.
            (\<forall>c < 3. data out ! ((y * width img + x) * 4 + c) =
                      data img ! ((y * width img + x) * 4 + c)) \<and>
            data out ! ((y * width img + x) * 4 + 3) =
              (if interior img y x then 255 else data img ! ((y * width img + x) * 4 + 3))) \<and>
         (out = img \<longleftrightarrow> interiorOpaque img)"
proof (intro exI conjI allI impI)
  show "applyMedianFilter img =
      Inr \<lparr>width = width img, height = height img, data = filteredData img\<rparr>"
    using assms(1) by (rule applyMedianFilter_wellFormed)
  show "width \<lparr>width = width img, height = height img, data = filteredData img\<rparr> = width img"
    by simp
  show "height \<lparr>width = width img, height = height img, data = filteredData img\<rparr> = height img"
    by simp
next
  fix y x and c :: nat assume "y < height img" "x < width img" "c < 3"
  then show "data \<lparr>width = width img, height = height img, data = filteredData img\<rparr>
        ! ((y * width img + x) * 4 + c) =
      data img ! ((y * width img + x) * 4 + c)"
    using assms(2) by (simp add: filteredData_pixel filteredPixel_rgb del: distrib_right_numeral)
next
  fix y x assume "y < height img" "x < width img"
  then show "data \<lparr>width = width img, height = height img, data = filteredData img\<rparr>
        ! ((y * width img + x) * 4 + 3) =
      (if interior img y x then 255 else data img ! ((y * width img + x) * 4 + 3))"
    by (simp add: filteredData_pixel filteredPixel_alpha del: distrib_right_numeral)
next
  have len: "length (data img) = 4 * (width img * height img)"
    using assms(1) by (simp add: wellFormed_def)
  have "\<lparr>width = width img, height = height img, data = filteredData img\<rparr> = img
      \<longleftrightarrow> filteredData img = data img"
    by (cases img) simp
  also have "\<dots> \<longleftrightarrow> (\<forall>y < height img. \<forall>x < width img. \<forall>c < 4.
        filteredPixel img y x ! c = data img ! ((y * width img + x) * 4 + c))"
    by (simp add: data_eq_iff_pixels [OF filteredData_length len] filteredData_pixel
          del: distrib_right_numeral)
  also have "\<dots> \<longleftrightarrow> interiorOpaque img"
  proof
    assume a: "\<forall>y < height img. \<forall>x < width img. \<forall>c < 4.
        filteredPixel img y x ! c = data img ! ((y * width img + x) * 4 + c)"
    show "interiorOpaque img"
      unfolding interiorOpaque_def
    proof (intro allI impI)
      fix y x assume yx: "y < height img" "x < width img" "interior img y x"
      with a have "filteredPixel img y x ! 3 = data img ! ((y * width img + x) * 4 + 3)"
        by (simp del: distrib_right_numeral)
      with yx show "data img ! ((y * width img + x) * 4 + 3) = 255"
        by (simp add: filteredPixel_alpha del: distrib_right_numeral)
    qed
  next
    assume op: "interiorOpaque img"
    show "\<forall>y < height img. \<forall>x < width img. \<forall>c < 4.
        filteredPixel img y x ! c = data img ! ((y * width img + x) * 4 + c)"
    proof (intro allI impI)
      fix y x c assume yx: "y < height img" "x < width img" and c: "c < (4::nat)"
      show "filteredPixel img y x ! c = data img ! ((y * width img + x) * 4 + c)"
      proof (cases "c < 3")
        case True
        with yx assms(2) show ?thesis by (simp add: filteredPixel_rgb del: distrib_right_numeral)
      next
        case False
        with c have "c = 3" by simp
        with yx op show ?thesis
          by (simp add: filteredPixel_alpha interiorOpaque_def del: distrib_right_numeral)
      qed
    qed
  qed
  finally show "\<lparr>width = width img, height = height img, data = filteredData img\<rparr> = img
      \<longleftrightarrow> interiorOpaque img" .
qed

lemma interior_3x3:
  "y < 3 \<Longrightarrow> x < 3 \<Longrightarrow> interior \<lparr>width = 3, height = 3, data = d\<rparr> y x \<longleftrightarrow> y = 1 \<and> x = 1"
  by (auto simp add: interior_def)

lemma locallyConstant_3x3:
  "locallyConstant \<lparr>width = 3, height = 3, data = replicate 36 a\<rparr>"
  by (simp add: locallyConstant_def interior_3x3 channelValues_def)

theorem applyMedianFilter_locallyConstant_witness:
  "applyMedianFilter \<lparr>width = 3, height = 3, data = replicate 36 255\<rparr> =
     Inr \<lparr>width = 3, height = 3, data = replicate 36 255\<rparr>"
  using applyMedianFilter_locallyConstant [of "\<lparr>width = 3, height = 3, data = replicate 36 255\<rparr>"]
    locallyConstant_3x3 [of 255]
  by (auto simp add: wellFormed_def interiorOpaque_def interior_3x3)

text \<open>
  The claim as stated fails on a 3x3 raster of zeros: every window is constant, and the
  centre pixel leaves the filter with alpha 255.
\<close>

theorem applyMedianFilter_identity_counterexample:
  "wellFormed \<lparr>width = 3, height = 3, data = replicate 36 0\<rparr> \<and>
   locallyConstant \<lparr>width = 3, height = 3, data = replicate 36 0\<rparr> \<and>
   applyMedianFilter \<lparr>width = 3, height = 3, data = replicate 36 0\<rparr> \<noteq>
     Inr \<lparr>width = 3, height = 3, data = replicate 36 0\<rparr>"
proof (intro conjI)
  let ?img = "\<lparr>width = 3, height = 3, data = replicate 36 0\<rparr>"
  show wf: "wellFormed ?img" by (simp add: wellFormed_def)
  show "locallyConstant ?img" by (rule locallyConstant_3x3)
  have "filteredData ?img ! 19 = filteredPixel ?img 1 1 ! 3"
    using filteredData_pixel [of 1 ?img 1 3] by simp
  also have "\<dots> = 255" by (simp add: filteredPixel_def)
  finally have "filteredData ?img \<noteq> replicate 36 0" by auto
  then show "applyMedianFilter ?img \<noteq> Inr ?img"
    by (simp add: applyMedianFilter_wellFormed [OF wf])
qed

section \<open>Properties of the LabelPlacer\<close>

lemma divmod_shift:
  assumes "0 < (W::int)" "0 \<le> r" "r < W"
  shows "(W * q + r) div W = q" "(W * q + r) mod W = r"
  using assms by (simp_all add: int_div_pos_eq int_mod_pos_eq)

lemma divmod_neighbors:
  assumes "0 < (W::int)"
  shows "(p + W) div W = p div W + 1" "(p + W) mod W = p mod W"
    and "(p - W) div W = p div W - 1" "(p - W) mod W = p mod W"
    and "(p - 1) mod W = (if p mod W = 0 then W - 1 else p mod W - 1)"
    and "(p - 1) div W = (if p mod W = 0 then p div W - 1 else p div W)"
    and "(p + 1) mod W = (if p mod W = W - 1 then 0 else p mod W + 1)"
    and "(p + 1) div W = (if p mod W = W - 1 then p div W + 1 else p div W)"
proof -
  define q r where "q = p div W" and "r = p mod W"
  have p: "p = W * q + r" by (simp add: q_def r_def)
  have r: "0 \<le> r" "r < W" using assms by (simp_all add: r_def)
  have up: "p + W = W * (q + 1) + r" and down: "p - W = W * (q - 1) + r"
    using p by (simp_all add: algebra_simps)
  show "(p + W) div W = p div W + 1" "(p + W) mod W = p mod W"
    unfolding up q_def [symmetric] r_def [symmetric] using assms r
    by (simp_all only: divmod_shift)
  show "(p - W) div W = p div W - 1" "(p - W) mod W = p mod W"
    unfolding down q_def [symmetric] r_def [symmetric] using assms r
    by (simp_all only: divmod_shift)
  have pred: "(p - 1) div W = (if r = 0 then q - 1 else q) \<and>
      (p - 1) mod W = (if r = 0 then W - 1 else r - 1)"
  proof (cases "r = 0")
    case True
    then have e: "p - 1 = W * (q - 1) + (W - 1)" using p by (simp add: algebra_simps)
    have a: "0 \<le> W - 1" "W - 1 < W" using assms by simp_all
    note d = divmod_shift [OF assms a, of "q - 1"]
    show ?thesis unfolding e by (simp only: d True if_True simp_thms)
  next
    case False
    then have e: "p - 1 = W * q + (r - 1)" using p by simp
    have a: "0 \<le> r - 1" "r - 1 < W" using r False by simp_all
    note d = divmod_shift [OF assms a, of q]
    show ?thesis unfolding e by (simp only: d False if_False simp_thms)
  qed
  then show "(p - 1) mod W = (if p mod W = 0 then W - 1 else p mod W - 1)"
    and "(p - 1) div W = (if p mod W = 0 then p div W - 1 else p div W)"
    by (simp_all add: q_def r_def)
  have succ: "(p + 1) div W = (if r = W - 1 then q + 1 else q) \<and>
      (p + 1) mod W = (if r = W - 1 then 0 else r + 1)"
  proof (cases "r = W - 1")
    case True
    then have e: "p + 1 = W * (q + 1) + 0" using p by (simp add: algebra_simps)
    have a: "0 \<le> (0::int)" "0 < W" using assms by simp_all
    note d = divmod_shift [OF assms a, of "q + 1"]
    show ?thesis unfolding e by (simp only: d True if_True simp_thms)
  next
    case False
    then have e: "p + 1 = W * q + (r + 1)" using p by simp
    have a: "0 \<le> r + 1" "r + 1 < W" using r False by simp_all
    note d = divmod_shift [OF assms a, of q]
    show ?thesis unfolding e by (simp only: d False if_False simp_thms)
  qed
  then show "(p + 1) mod W = (if p mod W = W - 1 then 0 else p mod W + 1)"
    and "(p + 1) div W = (if p mod W = W - 1 then p div W + 1 else p div W)"
    by (simp_all add: q_def r_def)
qed

text \<open>
  One erosion step on a rectangle. A rectangle narrower than the raster loses its
  outermost rows and columns. In a rectangle as wide as the raster the left neighbour
  (by index) of a pixel of column 0 is the last pixel of the row above, so only the first
  and the last row are on the boundary.
\<close>

lemma interior_rectangle:
  assumes W: "0 < W" "0 \<le> x0" "x0 + w \<le> W" and p: "p \<in> rectangle W x0 y0 w h"
  shows "(\<forall>n \<in> set [p - 1, p + 1, p - W, p + W]. n \<in> rectangle W x0 y0 w h) \<longleftrightarrow>
         p \<in> rectangle W (x0 + (if w < W then 1 else 0)) (y0 + 1)
               (w - 2 * (if w < W then 1 else 0)) (h - 2)"
proof -
  define x y where "x = p mod W" and "y = p div W"
  have xy: "x0 \<le> x" "x < x0 + w" "y0 \<le> y" "y < y0 + h"
    using p by (simp_all add: rectangle_def x_def y_def)
  have x: "0 \<le> x" "x < W" using W(1) by (simp_all add: x_def)
  note dm = divmod_neighbors [OF W(1), of p] x_def [symmetric] y_def [symmetric]
  have l: "p - 1 \<in> rectangle W x0 y0 w h \<longleftrightarrow>
      (if x = 0 then W - 1 < x0 + w \<and> y0 \<le> y - 1 else x0 \<le> x - 1)"
    using xy W x by (auto simp add: rectangle_def dm)
  have r: "p + 1 \<in> rectangle W x0 y0 w h \<longleftrightarrow>
      (if x = W - 1 then x0 \<le> 0 \<and> y + 1 < y0 + h else x + 1 < x0 + w)"
    using xy W x by (auto simp add: rectangle_def dm)
  have u: "p - W \<in> rectangle W x0 y0 w h \<longleftrightarrow> y0 \<le> y - 1"
    using xy by (auto simp add: rectangle_def dm)
  have d: "p + W \<in> rectangle W x0 y0 w h \<longleftrightarrow> y + 1 < y0 + h"
    using xy by (auto simp add: rectangle_def dm)
  have "p \<in> rectangle W (x0 + (if w < W then 1 else 0)) (y0 + 1)
               (w - 2 * (if w < W then 1 else 0)) (h - 2) \<longleftrightarrow>
        x0 + (if w < W then 1 else 0) \<le> x \<and> x < x0 + w - (if w < W then 1 else 0) \<and>
        y0 + 1 \<le> y \<and> y < y0 + h - 1"
    by (auto simp add: rectangle_def x_def y_def)
  moreover have "(\<forall>n \<in> set [p - 1, p + 1, p - W, p + W]. n \<in> rectangle W x0 y0 w h) \<longleftrightarrow>
        x0 + (if w < W then 1 else 0) \<le> x \<and> x < x0 + w - (if w < W then 1 else 0) \<and>
        y0 + 1 \<le> y \<and> y < y0 + h - 1"
  proof -
    have "(\<forall>n \<in> set [p - 1, p + 1, p - W, p + W]. n \<in> rectangle W x0 y0 w h) \<longleftrightarrow>
        (if x = 0 then W - 1 < x0 + w \<and> y0 \<le> y - 1 else x0 \<le> x - 1) \<and>
        (if x = W - 1 then x0 \<le> 0 \<and> y + 1 < y0 + h else x + 1 < x0 + w) \<and>
        y0 \<le> y - 1 \<and> y + 1 < y0 + h"
      by (simp only: list.set ball_simps l r u d) blast
    also have "\<dots> \<longleftrightarrow>
        x0 + (if w < W then 1 else 0) \<le> x \<and> x < x0 + w - (if w < W then 1 else 0) \<and>
        y0 + 1 \<le> y \<and> y < y0 + h - 1"
      using xy W x by (cases "w < W"; cases "x = 0"; cases "x = W - 1") auto
    finally show ?thesis .
  qed
  ultimately show ?thesis by simp
qed

lemma rectangle_shrink_subset:
  assumes "0 \<le> dx"
  shows "rectangle W (x0 + dx) (y0 + 1) (w - 2 * dx) (h - 2) \<subseteq> rectangle W x0 y0 w h"
  using assms by (auto simp add: rectangle_def)

lemma erosion_step_set:
  assumes W: "0 < W" "0 \<le> x0" "x0 + w \<le> W" and cur: "set cur = rectangle W x0 y0 w h"
  shows "set (filter (\<lambda>p. p \<notin> set (pixelsToRemove cur W)) cur) =
         rectangle W (x0 + (if w < W then 1 else 0)) (y0 + 1)
               (w - 2 * (if w < W then 1 else 0)) (h - 2)"
proof -
  let ?R = "rectangle W x0 y0 w h"
  let ?R' = "rectangle W (x0 + (if w < W then 1 else 0)) (y0 + 1)
               (w - 2 * (if w < W then 1 else 0)) (h - 2)"
  have sub: "?R' \<subseteq> ?R" by (rule rectangle_shrink_subset) simp
  have "p \<in> set (filter (\<lambda>p. p \<notin> set (pixelsToRemove cur W)) cur) \<longleftrightarrow> p \<in> ?R'" for p
  proof (cases "p \<in> ?R")
    case True
    have "p \<in> set (filter (\<lambda>p. p \<notin> set (pixelsToRemove cur W)) cur) \<longleftrightarrow>
        (\<forall>n \<in> set [p - 1, p + 1, p - W, p + W]. n \<in> ?R)"
      using True by (auto simp add: pixelsToRemove_def cur)
    with interior_rectangle [OF W True] show ?thesis by simp
  next
    case False
    with sub show ?thesis by (auto simp add: cur)
  qed
  then show ?thesis by blast
qed

lemma rectangle_nonempty_dims: "p \<in> rectangle W x0 y0 w h \<Longrightarrow> 0 < w \<and> 0 < h"
  by (auto simp add: rectangle_def)

lemma rectangle_nonempty:
  assumes "0 < W" "0 \<le> x0" "0 < w" "0 < h" "x0 + w \<le> W"
  shows "W * y0 + x0 \<in> rectangle W x0 y0 w h"
proof -
  have "0 \<le> x0" "x0 < W" using assms by simp_all
  from divmod_shift [OF assms(1) this, of y0] assms show ?thesis by (simp add: rectangle_def)
qed

text \<open>
  The erosion of a rectangle ends in a rectangle with the same centre: the sums
  \<open>2 x + w\<close> and \<open>2 y + h\<close> of a rectangle do not change in a step.
\<close>

lemma erosion_rectangle:
  assumes "0 < W" "0 \<le> x0" "0 \<le> y0" "0 < w" "0 < h" "x0 + w \<le> W"
    and "distinct cur" "set cur = rectangle W x0 y0 w h"
  shows "\<exists>x1 y1 w1 h1. 0 \<le> x1 \<and> 0 \<le> y1 \<and> 0 < w1 \<and> 0 < h1 \<and> x1 + w1 \<le> W \<and>
           2 * x1 + w1 = 2 * x0 + w \<and> 2 * y1 + h1 = 2 * y0 + h \<and>
           distinct (erosion cur W lst) \<and> set (erosion cur W lst) = rectangle W x1 y1 w1 h1"
  using assms(2-)
proof (induction "length cur" arbitrary: cur x0 y0 w h lst rule: less_induct)
  case less
  note W = assms(1)
  have ne: "cur \<noteq> []"
    using rectangle_nonempty [OF W less.prems(1,3,4,5), of y0] less.prems(7) by auto
  show ?case
  proof (cases "length (pixelsToRemove cur W) = length cur")
    case True
    then have "erosion cur W lst = cur" using ne by (simp add: erosion.simps [of cur])
    with less.prems show ?thesis by metis
  next
    case False
    let ?dx = "if w < W then 1 else (0::int)"
    let ?next = "filter (\<lambda>p. p \<notin> set (pixelsToRemove cur W)) cur"
    have step: "erosion cur W lst = erosion ?next W cur"
      using ne False by (simp add: erosion.simps [of cur])
    have set_next: "set ?next = rectangle W (x0 + ?dx) (y0 + 1) (w - 2 * ?dx) (h - 2)"
      using W less.prems(1,5,7) by (rule erosion_step_set)
    have "\<not> (\<forall>p \<in> set cur. p \<in> set (pixelsToRemove cur W))"
    proof
      assume "\<forall>p \<in> set cur. p \<in> set (pixelsToRemove cur W)"
      then have "filter (\<lambda>p. \<exists>neighborIndex \<in> set [p - 1, p + 1, p - W, p + W].
          neighborIndex \<notin> set cur) cur = cur"
        by (intro filter_True) (simp add: pixelsToRemove_def)
      then have "pixelsToRemove cur W = cur" by (simp add: pixelsToRemove_def)
      with False show False by simp
    qed
    then obtain q where "q \<in> set ?next" by auto
    then have dims: "0 < w - 2 * ?dx" "0 < h - 2"
      unfolding set_next using rectangle_nonempty_dims by blast+
    have "\<exists>x1 y1 w1 h1. 0 \<le> x1 \<and> 0 \<le> y1 \<and> 0 < w1 \<and> 0 < h1 \<and> x1 + w1 \<le> W \<and>
           2 * x1 + w1 = 2 * (x0 + ?dx) + (w - 2 * ?dx) \<and>
           2 * y1 + h1 = 2 * (y0 + 1) + (h - 2) \<and>
           distinct (erosion ?next W cur) \<and>
           set (erosion ?next W cur) = rectangle W x1 y1 w1 h1"
    proof (rule less.hyps)
      show "length ?next < length cur" using ne by (rule erosion_shrinks)
      show "0 \<le> x0 + ?dx" "0 \<le> y0 + 1" using less.prems(1,2) by simp_all
      show "0 < w - 2 * ?dx" "0 < h - 2" by (rule dims)+
      show "x0 + ?dx + (w - 2 * ?dx) \<le> W" using less.prems(5) by simp
      show "distinct ?next" using less.prems(6) by simp
      show "set ?next = rectangle W (x0 + ?dx) (y0 + 1) (w - 2 * ?dx) (h - 2)"
        by (rule set_next)
    qed
    then show ?thesis unfolding step by (simp add: algebra_simps)
  qed
qed

lemma fold_setAdd:
  "distinct acc \<Longrightarrow>
   distinct (fold setAdd xs acc) \<and> set (fold setAdd xs acc) = set xs \<union> set acc"
proof (induction xs arbitrary: acc)
  case Nil
  then show ?case by simp
next
  case (Cons x xs)
  have "distinct (setAdd x acc)" using Cons.prems by (simp add: setAdd_def)
  from Cons.IH [OF this] show ?case by (auto simp add: setAdd_def)
qed

lemma newSet_set: "distinct (newSet xs)" "set (newSet xs) = set xs"
  using fold_setAdd [of "[]" xs] by (simp_all add: newSet_def)

lemma rectangle_image:
  assumes "0 < W" "0 \<le> x0" "x0 + w \<le> W"
  shows "rectangle W x0 y0 w h = (\<lambda>(x, y). W * y + x) ` ({x0..<x0 + w} \<times> {y0..<y0 + h})"
proof (intro set_eqI iffI)
  fix p assume p: "p \<in> rectangle W x0 y0 w h"
  then have "(p mod W, p div W) \<in> {x0..<x0 + w} \<times> {y0..<y0 + h}"
    by (simp add: rectangle_def)
  moreover have "p = (\<lambda>(x, y). W * y + x) (p mod W, p div W)" by simp
  ultimately show "p \<in> (\<lambda>(x, y). W * y + x) ` ({x0..<x0 + w} \<times> {y0..<y0 + h})"
    by (rule rev_image_eqI)
next
  fix p assume "p \<in> (\<lambda>(x, y). W * y + x) ` ({x0..<x0 + w} \<times> {y0..<y0 + h})"
  then obtain x y where xy: "p = W * y + x" "x0 \<le> x" "x < x0 + w" "y0 \<le> y" "y < y0 + h"
    by auto
  then have "0 \<le> x" "x < W" using assms by simp_all
  from divmod_shift [OF assms(1) this, of y] xy show "p \<in> rectangle W x0 y0 w h"
    by (simp add: rectangle_def)
qed

lemma rectangle_inj:
  assumes "0 < (W::int)" "0 \<le> x0" "x0 + w \<le> W"
  shows "inj_on (\<lambda>(x, y). W * y + x) ({x0..<x0 + w} \<times> {y0..<y0 + h})"
proof (rule inj_onI)
  fix a b assume a: "a \<in> {x0..<x0 + w} \<times> {y0..<y0 + h}"
    and b: "b \<in> {x0..<x0 + w} \<times> {y0..<y0 + h}"
    and eq: "(\<lambda>(x, y). W * y + x) a = (\<lambda>(x, y). W * y + x) b"
  obtain x y where axy: "a = (x, y)" by (cases a)
  obtain x' y' where bxy: "b = (x', y')" by (cases b)
  from a axy assms have x: "0 \<le> x" "x < W" by auto
  from b bxy assms have x': "0 \<le> x'" "x' < W" by auto
  from eq axy bxy have e: "W * y + x = W * y' + x'" by simp
  from divmod_shift [OF assms(1) x, of y] divmod_shift [OF assms(1) x', of y'] e
  have "y = y'" "x = x'" by simp_all
  with axy bxy show "a = b" by simp
qed

lemma sum_int_range: "2 * (\<Sum>x \<in> {a..<a + int n}. x) = int n * (2 * a + int n - 1)"
proof (induction n)
  case 0
  then show ?case by simp
next
  case (Suc n)
  have "{a..<a + int (Suc n)} = insert (a + int n) {a..<a + int n}" by auto
  then have "(\<Sum>x \<in> {a..<a + int (Suc n)}. x) = (a + int n) + (\<Sum>x \<in> {a..<a + int n}. x)"
    by simp
  with Suc show ?case by (simp add: algebra_simps)
qed

lemma rectangle_sums:
  assumes "0 < W" "0 \<le> x0" "x0 + w \<le> W" "0 \<le> w" "0 \<le> h"
  shows "2 * (\<Sum>p \<in> rectangle W x0 y0 w h. p mod W) = w * h * (2 * x0 + w - 1)"
    and "2 * (\<Sum>p \<in> rectangle W x0 y0 w h. p div W) = w * h * (2 * y0 + h - 1)"
    and "int (card (rectangle W x0 y0 w h)) = w * h"
proof -
  let ?X = "{x0..<x0 + w}" and ?Y = "{y0..<y0 + h}"
  let ?f = "\<lambda>(x, y). W * y + x"
  note img = rectangle_image [OF assms(1-3), of y0 h] and inj = rectangle_inj [OF assms(1-3), of y0 h]
  have coord: "?f a mod W = fst a \<and> ?f a div W = snd a" if "a \<in> ?X \<times> ?Y" for a
  proof -
    obtain x y where a: "a = (x, y)" by (cases a)
    with that assms have "0 \<le> x" "x < W" by auto
    from divmod_shift [OF assms(1) this, of y] a show ?thesis by simp
  qed
  have sx: "2 * (\<Sum>x \<in> ?X. x) = w * (2 * x0 + w - 1)"
    using sum_int_range [of x0 "nat w"] assms(4) by simp
  have sy: "2 * (\<Sum>y \<in> ?Y. y) = h * (2 * y0 + h - 1)"
    using sum_int_range [of y0 "nat h"] assms(5) by simp
  have "(\<Sum>p \<in> rectangle W x0 y0 w h. p mod W) = (\<Sum>a \<in> ?X \<times> ?Y. ?f a mod W)"
    unfolding img by (simp add: sum.reindex [OF inj] o_def)
  also have "\<dots> = (\<Sum>a \<in> ?X \<times> ?Y. fst a)" using coord by (intro sum.cong) simp_all
  also have "\<dots> = (\<Sum>(x, y) \<in> ?X \<times> ?Y. x)" by (simp add: case_prod_unfold)
  also have "\<dots> = (\<Sum>x \<in> ?X. \<Sum>y \<in> ?Y. x)" by (rule sum.cartesian_product [symmetric])
  also have "\<dots> = h * (\<Sum>x \<in> ?X. x)" using assms(5) by (simp add: sum_distrib_left)
  finally have "2 * (\<Sum>p \<in> rectangle W x0 y0 w h. p mod W) = h * (2 * (\<Sum>x \<in> ?X. x))"
    by simp
  also have "\<dots> = h * (w * (2 * x0 + w - 1))" by (simp only: sx)
  finally show "2 * (\<Sum>p \<in> rectangle W x0 y0 w h. p mod W) = w * h * (2 * x0 + w - 1)"
    by (simp add: ac_simps)
  have "(\<Sum>p \<in> rectangle W x0 y0 w h. p div W) = (\<Sum>a \<in> ?X \<times> ?Y. ?f a div W)"
    unfolding img by (simp add: sum.reindex [OF inj] o_def)
  also have "\<dots> = (\<Sum>a \<in> ?X \<times> ?Y. snd a)" using coord by (intro sum.cong) simp_all
  also have "\<dots> = (\<Sum>(x, y) \<in> ?X \<times> ?Y. y)" by (simp add: case_prod_unfold)
  also have "\<dots> = (\<Sum>x \<in> ?X. \<Sum>y \<in> ?Y. y)" by (rule sum.cartesian_product [symmetric])
  also have "\<dots> = w * (\<Sum>y \<in> ?Y. y)" using assms(4) by simp
  finally have "2 * (\<Sum>p \<in> rectangle W x0 y0 w h. p div W) = w * (2 * (\<Sum>y \<in> ?Y. y))"
    by simp
  also have "\<dots> = w * (h * (2 * y0 + h - 1))" by (simp only: sy)
  finally show "2 * (\<Sum>p \<in> rectangle W x0 y0 w h. p div W) = w * h * (2 * y0 + h - 1)"
    by (simp add: ac_simps)
  have "card (rectangle W x0 y0 w h) = card (?X \<times> ?Y)"
    unfolding img by (rule card_image [OF inj])
  then show "int (card (rectangle W x0 y0 w h)) = w * h"
    using assms(4,5) by (simp add: card_cartesian_product)
qed

lemma mathRound_int: "mathRound (of_int z) = of_int z"
proof -
  have "\<lfloor>of_int z + (1 / 2 :: real)\<rfloor> = z" by linarith
  then show ?thesis by (simp add: mathRound_def)
qed

lemma rounded_mean:
  assumes "2 * s = n * (2 * c)" "0 < (n::int)"
  shows "mathRound (of_int s / real (nat n)) = of_int c"
proof -
  from assms have "s = n * c" by simp
  then have "of_int s / real (nat n) = (of_int c :: real)" using assms(2) by simp
  then show ?thesis by (simp add: mathRound_int)
qed

text \<open>
  Claim C7. For a region whose pixels are those of a solid rectangle of odd width \<open>w\<close>
  and odd height \<open>h\<close> lying within a raster of width \<open>W\<close> (in any order), the
  LabelPlacer returns the centre \<open>(x0 + (w - 1) / 2, y0 + (h - 1) / 2)\<close> of the
  rectangle, which is the mean of its pixel coordinates.
\<close>

theorem findBestLabelPosition_rectangle_center:
  assumes "0 < W" "0 \<le> x0" "0 \<le> y0" "0 < w" "0 < h" "x0 + w \<le> W" "odd w" "odd h"
    and "set (pixels region) = rectangle W x0 y0 w h"
  shows "findBestLabelPosition region W =
           (of_int (x0 + (w - 1) div 2), of_int (y0 + (h - 1) div 2))"
proof -
  have ne: "pixels region \<noteq> []"
    using rectangle_nonempty [OF assms(1,2,4,5,6), of y0] assms(9) by auto
  let ?L = "erosion (newSet (pixels region)) W []"
  from erosion_rectangle [OF assms(1-6) newSet_set(1), of "pixels region" "[]"]
    newSet_set(2) [of "pixels region"] assms(9)
  obtain x1 y1 w1 h1 where r: "0 \<le> x1" "0 \<le> y1" "0 < w1" "0 < h1" "x1 + w1 \<le> W"
    "2 * x1 + w1 = 2 * x0 + w" "2 * y1 + h1 = 2 * y0 + h"
    "distinct ?L" "set ?L = rectangle W x1 y1 w1 h1"
    by auto
  have w1: "0 \<le> w1" and h1: "0 \<le> h1" using r(3,4) by simp_all
  note sums = rectangle_sums [OF assms(1) r(1,5) w1 h1, of y1]
  have len: "int (length ?L) = w1 * h1"
    using distinct_card [OF r(8)] r(9) sums(3) by simp
  then have pos: "0 < int (length ?L)" using r(3,4) by simp
  then have Lne: "?L \<noteq> []" by auto
  from assms(7) obtain a where a: "w = 2 * a + 1" by (elim oddE)
  from assms(8) obtain b where b: "h = 2 * b + 1" by (elim oddE)
  have cx: "(w - 1) div 2 = a" and cy: "(h - 1) div 2 = b" using a b by simp_all
  have sx: "sum_list (map (\<lambda>p. p mod W) ?L) = (\<Sum>p \<in> rectangle W x1 y1 w1 h1. p mod W)"
    using sum_list_distinct_conv_sum_set [OF r(8), of "\<lambda>p. p mod W"] r(9) by simp
  have sy: "sum_list (map (\<lambda>p. p div W) ?L) = (\<Sum>p \<in> rectangle W x1 y1 w1 h1. p div W)"
    using sum_list_distinct_conv_sum_set [OF r(8), of "\<lambda>p. p div W"] r(9) by simp
  have "2 * sum_list (map (\<lambda>p. p mod W) ?L) = int (length ?L) * (2 * (x0 + a))"
    unfolding sx sums(1) len using r(6) a by (simp add: algebra_simps)
  from rounded_mean [OF this pos]
  have X: "mathRound (of_int (sum_list (map (\<lambda>p. p mod W) ?L)) / real (length ?L))
      = of_int (x0 + a)" by simp
  have "2 * sum_list (map (\<lambda>p. p div W) ?L) = int (length ?L) * (2 * (y0 + b))"
    unfolding sy sums(2) len using r(7) b by (simp add: algebra_simps)
  from rounded_mean [OF this pos]
  have Y: "mathRound (of_int (sum_list (map (\<lambda>p. p div W) ?L)) / real (length ?L))
      = of_int (y0 + b)" by simp
  show ?thesis
    unfolding findBestLabelPosition_def Let_def cx cy using ne Lne X Y by simp
qed

theorem findBestLabelPosition_rectangle_center_witness:
  "set (pixels \<lparr>id_r = 1, pixels = [12, 6, 7, 8, 11, 13, 16, 17, 18], sumR = 0, sumG = 0,
        sumB = 0, minX = 1, minY = 1, maxX = 3, maxY = 3, color = None\<rparr>) = rectangle 5 1 1 3 3 \<and>
   findBestLabelPosition \<lparr>id_r = 1, pixels = [12, 6, 7, 8, 11, 13, 16, 17, 18], sumR = 0,
        sumG = 0, sumB = 0, minX = 1, minY = 1, maxX = 3, maxY = 3, color = None\<rparr> 5 = (2, 2)"
proof -
  let ?r = "\<lparr>id_r = 1, pixels = [12, 6, 7, 8, 11, 13, 16, 17, 18], sumR = 0, sumG = 0,
        sumB = 0, minX = 1, minY = 1, maxX = 3, maxY = 3, color = None\<rparr>"
  have i: "{1..<4} = {1, 2, 3::int}" by auto
  have "rectangle 5 1 1 3 3 = (\<lambda>(x, y). 5 * y + x) ` ({1, 2, 3} \<times> {1, 2, 3})"
    using rectangle_image [of 5 1 3 1 3] by (simp add: i)
  then have s: "set (pixels ?r) = rectangle 5 1 1 3 3"
    by auto
  from findBestLabelPosition_rectangle_center [of 5 1 1 3 3 ?r, OF _ _ _ _ _ _ _ _ s] s
  show ?thesis by simp
qed

section \<open>Evaluating the segmentation\<close>

lemma sqrt_less_iff_sq: "0 < t \<Longrightarrow> sqrt x < t \<longleftrightarrow> x < t\<^sup>2"
  by (metis abs_of_pos less_eq_real_def real_sqrt_abs real_sqrt_less_iff)

lemma euclideanDistance_less_iff:
  "0 < t \<Longrightarrow> euclideanDistance (r1, g1, b1) (r2, g2, b2) < t \<longleftrightarrow>
     (r1 - r2)\<^sup>2 + (g1 - g2)\<^sup>2 + (b1 - b2)\<^sup>2 < t\<^sup>2"
  by (simp add: euclideanDistance_def sqrt_less_iff_sq)

lemma floodFill_Nil: "floodFill img opts c m r [] = Some (m, r)"
  by (subst floodFill.simps) simp

lemma floodFill_Cons:
  "floodFill img opts c m r (p # rest) =
     floodFill img opts c (fst (visitPixel img opts c p m r rest))
       (fst (snd (visitPixel img opts c p m r rest)))
       (snd (snd (visitPixel img opts c p m r rest)))"
  by (subst floodFill.simps) (simp add: Let_def)

lemmas evalRegions =
  findRegions_def upt_rec eval_nat_numeral floodFill_Nil floodFill_Cons visitPixel_def
  visitNeighbor_def Let_def emptyRegion_def pixelColor_def euclideanDistance_less_iff

lemmas evalMerge =
  findClosestColor_def atU_def euclideanDistanceU_def euclideanDistance_def lessInf_def
  sortedRegionIds_def mergeStep_def isSmall_def isThin_def Let_def

text \<open>
  A 2x2 raster with a black left column and a white right column, segmented with
  \<open>colorThreshold = 10\<close>: region 1 is the left column, region 2 the right one.
\<close>

lemma findRegions_two_columns:
  "colorThreshold opts = 10 \<Longrightarrow>
   findRegions
     \<lparr>width = 2, height = 2,
        data = [0, 0, 0, 255, 255, 255, 255, 255, 0, 0, 0, 255, 255, 255, 255, 255]\<rparr> opts
   = Some ([1, 2, 1, 2],
       [(1, \<lparr>id_r = 1, pixels = [0, 2], sumR = 0, sumG = 0, sumB = 0,
               minX = 0, minY = 0, maxX = 0, maxY = 1, color = None\<rparr>),
        (2, \<lparr>id_r = 2, pixels = [1, 3], sumR = 510, sumG = 510, sumB = 510,
               minX = 1, minY = 0, maxX = 1, maxY = 1, color = None\<rparr>)],
       3)"
  by (simp add: evalRegions)

lemma assignColors_two_columns:
  "assignColors [Some (0, 0, 0), Some (255, 255, 255)]
       [(1, \<lparr>id_r = 1, pixels = [0, 2], sumR = 0, sumG = 0, sumB = 0,
               minX = 0, minY = 0, maxX = 0, maxY = 1, color = None\<rparr>),
        (2, \<lparr>id_r = 2, pixels = [1, 3], sumR = 510, sumG = 510, sumB = 510,
               minX = 1, minY = 0, maxX = 1, maxY = 1, color = None\<rparr>)]
   = Inr
       [(1, \<lparr>id_r = 1, pixels = [0, 2], sumR = 0, sumG = 0, sumB = 0,
               minX = 0, minY = 0, maxX = 0, maxY = 1, color = Some (0, 0, 0)\<rparr>),
        (2, \<lparr>id_r = 2, pixels = [1, 3], sumR = 510, sumG = 510, sumB = 510,
               minX = 1, minY = 0, maxX = 1, maxY = 1, color = Some (255, 255, 255)\<rparr>)]"
  by (simp add: evalMerge)

text \<open>With \<open>minRegionSize = 1\<close> and \<open>thinnessThreshold = 1.5\<close> nothing is merged.\<close>

lemma segmentImage_two_columns:
  "segmentImage
     \<lparr>width = 2, height = 2,
        data = [0, 0, 0, 255, 255, 255, 255, 255, 0, 0, 0, 255, 255, 255, 255, 255]\<rparr>
     [Some (0, 0, 0), Some (255, 255, 255)]
     \<lparr>colorThreshold = 10, minRegionSize = 1, thinnessThreshold = 3 / 2\<rparr>
   = Some (Inr ([1, 2, 1, 2],
       [(1, \<lparr>id_r = 1, pixels = [0, 2], sumR = 0, sumG = 0, sumB = 0,
               minX = 0, minY = 0, maxX = 0, maxY = 1, color = Some (0, 0, 0)\<rparr>),
        (2, \<lparr>id_r = 2, pixels = [1, 3], sumR = 510, sumG = 510, sumB = 510,
               minX = 1, minY = 0, maxX = 1, maxY = 1, color = Some (255, 255, 255)\<rparr>)]))"
  unfolding segmentImage_def
  by (simp add: findRegions_two_columns assignColors_two_columns)
    (simp add: evalMerge)

text \<open>
  With \<open>minRegionSize = 3\<close> the first iteration of the merge loop folds region 1 into
  region 2.
\<close>

lemma mergedAfter_two_columns:
  "mergedAfter
     \<lparr>width = 2, height = 2,
        data = [0, 0, 0, 255, 255, 255, 255, 255, 0, 0, 0, 255, 255, 255, 255, 255]\<rparr>
     [Some (0, 0, 0), Some (255, 255, 255)]
     \<lparr>colorThreshold = 10, minRegionSize = 3, thinnessThreshold = 3 / 2\<rparr> 0
   = Some (Inr ([1, 2, 1, 2],
       [(1, \<lparr>id_r = 1, pixels = [0, 2], sumR = 0, sumG = 0, sumB = 0,
               minX = 0, minY = 0, maxX = 0, maxY = 1, color = Some (0, 0, 0)\<rparr>),
        (2, \<lparr>id_r = 2, pixels = [1, 3], sumR = 510, sumG = 510, sumB = 510,
               minX = 1, minY = 0, maxX = 1, maxY = 1, color = Some (255, 255, 255)\<rparr>)]))"
  "mergedAfter
     \<lparr>width = 2, height = 2,
        data = [0, 0, 0, 255, 255, 255, 255, 255, 0, 0, 0, 255, 255, 255, 255, 255]\<rparr>
     [Some (0, 0, 0), Some (255, 255, 255)]
     \<lparr>colorThreshold = 10, minRegionSize = 3, thinnessThreshold = 3 / 2\<rparr> (Suc 0)
   = Some (Inr ([2, 2, 2, 2],
       [(2, \<lparr>id_r = 2, pixels = [1, 3, 0, 2], sumR = 510, sumG = 510, sumB = 510,
               minX = 0, minY = 0, maxX = 1, maxY = 1, color = Some (255, 255, 255)\<rparr>)]))"
  unfolding mergedAfter_def
  by (simp_all add: findRegions_two_columns assignColors_two_columns)
    (simp_all add: evalMerge neighborIdsOf_def addNeighbor_def setAdd_def)

section \<open>Properties of the merge-candidate test\<close>

text \<open>
  Claim C2 fails on the code. In a 2x2 raster with a black left column and a white right
  column, \<open>colorThreshold = 10\<close>, \<open>minRegionSize = 1\<close> and \<open>thinnessThreshold = 1.5\<close>,
  region 1 is the left column: two pixels in a bounding box of 1x2, of aspect ratio 2,
  so a merge candidate by the claim. The code divides the dimensions of the image,
  \<open>2 / 2 = 1\<close>, finds the region neither small nor thin, and leaves both regions.
\<close>

theorem isThin_divides_image_dimensions:
  "segmentImage
     \<lparr>width = 2, height = 2,
        data = [0, 0, 0, 255, 255, 255, 255, 255, 0, 0, 0, 255, 255, 255, 255, 255]\<rparr>
     [Some (0, 0, 0), Some (255, 255, 255)]
     \<lparr>colorThreshold = 10, minRegionSize = 1, thinnessThreshold = 3 / 2\<rparr>
   = Some (Inr ([1, 2, 1, 2],
       [(1, \<lparr>id_r = 1, pixels = [0, 2], sumR = 0, sumG = 0, sumB = 0,
               minX = 0, minY = 0, maxX = 0, maxY = 1, color = Some (0, 0, 0)\<rparr>),
        (2, \<lparr>id_r = 2, pixels = [1, 3], sumR = 510, sumG = 510, sumB = 510,
               minX = 1, minY = 0, maxX = 1, maxY = 1, color = Some (255, 255, 255)\<rparr>)])) \<and>
   isThinBoundingBox \<lparr>colorThreshold = 10, minRegionSize = 1, thinnessThreshold = 3 / 2\<rparr>
     \<lparr>id_r = 1, pixels = [0, 2], sumR = 0, sumG = 0, sumB = 0,
        minX = 0, minY = 0, maxX = 0, maxY = 1, color = Some (0, 0, 0)\<rparr> \<and>
   \<not> isThin
     \<lparr>width = 2, height = 2,
        data = [0, 0, 0, 255, 255, 255, 255, 255, 0, 0, 0, 255, 255, 255, 255, 255]\<rparr>
     \<lparr>colorThreshold = 10, minRegionSize = 1, thinnessThreshold = 3 / 2\<rparr>
     \<lparr>id_r = 1, pixels = [0, 2], sumR = 0, sumG = 0, sumB = 0,
        minX = 0, minY = 0, maxX = 0, maxY = 1, color = Some (0, 0, 0)\<rparr> \<and>
   \<not> isSmall \<lparr>colorThreshold = 10, minRegionSize = 1, thinnessThreshold = 3 / 2\<rparr>
     \<lparr>id_r = 1, pixels = [0, 2], sumR = 0, sumG = 0, sumB = 0,
        minX = 0, minY = 0, maxX = 0, maxY = 1, color = Some (0, 0, 0)\<rparr>"
proof (intro conjI)
  show "segmentImage
     \<lparr>width = 2, height = 2,
        data = [0, 0, 0, 255, 255, 255, 255, 255, 0, 0, 0, 255, 255, 255, 255, 255]\<rparr>
     [Some (0, 0, 0), Some (255, 255, 255)]
     \<lparr>colorThreshold = 10, minRegionSize = 1, thinnessThreshold = 3 / 2\<rparr>
   = Some (Inr ([1, 2, 1, 2],
       [(1, \<lparr>id_r = 1, pixels = [0, 2], sumR = 0, sumG = 0, sumB = 0,
               minX = 0, minY = 0, maxX = 0, maxY = 1, color = Some (0, 0, 0)\<rparr>),
        (2, \<lparr>id_r = 2, pixels = [1, 3], sumR = 510, sumG = 510, sumB = 510,
               minX = 1, minY = 0, maxX = 1, maxY = 1, color = Some (255, 255, 255)\<rparr>)]))"
    by (rule segmentImage_two_columns)
qed (simp_all add: isThinBoundingBox_def isThin_def isSmall_def)

section \<open>Properties of the RegionGrower\<close>

lemma zeros_update:
  "i < length m \<Longrightarrow> m ! i = 0 \<Longrightarrow> v \<noteq> 0 \<Longrightarrow> Suc (zeros (m[i := v])) = zeros m"
  unfolding zeros_def
proof (induction m arbitrary: i)
  case Nil
  then show ?case by simp
next
  case (Cons a m)
  then show ?case by (cases i) simp_all
qed

lemma owned_update:
  assumes "0 \<le> nb" "nb < int (length m)" "m ! nat nb \<noteq> k"
  shows "owned (m[nat nb := k]) k = insert nb (owned m k)"
proof -
  have "p \<in> owned (m[nat nb := k]) k \<longleftrightarrow> p = nb \<or> p \<in> owned m k" for p
  proof (cases "p = nb")
    case True
    with assms show ?thesis by (simp add: owned_def)
  next
    case False
    show ?thesis
    proof (cases "0 \<le> p")
      case True
      with False assms(1) have "nat p \<noteq> nat nb" by simp
      with False show ?thesis by (simp add: owned_def)
    next
      case False
      then show ?thesis using assms(1) by (auto simp add: owned_def)
    qed
  qed
  then show ?thesis by blast
qed

lemma grows_refl: "grows k st st"
  by (simp add: grows_def)

lemma grows_trans:
  assumes "grows k st st'" "grows k st' st''" "k \<noteq> 0"
  shows "grows k st st''"
proof -
  have 1: "length (fst st'') = length (fst st)" using assms by (simp add: grows_def)
  have 2: "2 * zeros (fst st'') + length (snd st'') \<le> 2 * zeros (fst st) + length (snd st)"
    using assms(1,2) unfolding grows_def by linarith
  have 3: "fst st'' ! j = fst st ! j \<or> (fst st ! j = 0 \<and> fst st'' ! j = k)"
    if j: "j < length (fst st)" for j
  proof -
    from j have a: "fst st' ! j = fst st ! j \<or> (fst st ! j = 0 \<and> fst st' ! j = k)"
      using assms(1) by (simp add: grows_def)
    from j have "j < length (fst st')" using assms(1) by (simp add: grows_def)
    then have b: "fst st'' ! j = fst st' ! j \<or> (fst st' ! j = 0 \<and> fst st'' ! j = k)"
      using assms(2) by (simp add: grows_def)
    from a b assms(3) show ?thesis by auto
  qed
  have 4: "distinct (P @ snd st'') \<and> set P \<union> set (snd st'') = owned (fst st'') k"
    if "distinct (P @ snd st) \<and> set P \<union> set (snd st) = owned (fst st) k" for P
  proof -
    from that have "distinct (P @ snd st') \<and> set P \<union> set (snd st') = owned (fst st') k"
      using assms(1) unfolding grows_def by blast
    then show ?thesis using assms(2) unfolding grows_def by blast
  qed
  from 1 2 3 4 show ?thesis unfolding grows_def by blast
qed

lemma visitNeighbor_cases:
  "visitNeighbor img opts c k x y nb (m, s) = (m, s) \<or>
   (0 \<le> nb \<and> nb < int (length m) \<and> m ! nat nb = 0 \<and>
    visitNeighbor img opts c k x y nb (m, s) = (m[nat nb := k], nb # s))"
  by (simp add: visitNeighbor_def Let_def)

lemma grows_push:
  assumes "0 \<le> nb" "nb < int (length m)" "m ! nat nb = 0" "k \<noteq> 0"
  shows "grows k (m, s) (m[nat nb := k], nb # s)"
proof -
  have lt: "nat nb < length m" using assms(1,2) by simp
  have 2: "2 * zeros (m[nat nb := k]) + length (nb # s) \<le> 2 * zeros m + length s"
    using zeros_update [OF lt assms(3,4)] by simp
  have 3: "m[nat nb := k] ! j = m ! j \<or> (m ! j = 0 \<and> m[nat nb := k] ! j = k)"
    if "j < length m" for j
    using that assms(3) by (cases "j = nat nb") simp_all
  have 4: "distinct (P @ nb # s) \<and> set P \<union> set (nb # s) = owned (m[nat nb := k]) k"
    if a: "distinct (P @ s) \<and> set P \<union> set s = owned m k" for P
  proof -
    have ne: "m ! nat nb \<noteq> k" using assms(3,4) by simp
    then have "nb \<notin> owned m k" by (simp add: owned_def)
    with a have "nb \<notin> set P" "nb \<notin> set s" by auto
    with a show ?thesis using owned_update [OF assms(1,2) ne] by auto
  qed
  have "length (fst (m[nat nb := k], nb # s)) = length (fst (m, s))" by simp
  with 2 3 4 show ?thesis unfolding grows_def fst_conv snd_conv by blast
qed

lemma grows_visitNeighbor:
  "k \<noteq> 0 \<Longrightarrow> grows k st (visitNeighbor img opts c k x y nb st)"
  using visitNeighbor_cases [of img opts c k x y nb "fst st" "snd st"]
  by (cases st) (auto simp add: grows_refl grows_push)

lemma grows_fold:
  "k \<noteq> 0 \<Longrightarrow> grows k st (fold (visitNeighbor img opts c k x y) nbs st)"
proof (induction nbs arbitrary: st)
  case Nil
  then show ?case by (simp add: grows_refl)
next
  case (Cons nb nbs)
  from grows_trans [OF grows_visitNeighbor [OF Cons.prems] Cons.IH [OF Cons.prems] Cons.prems]
  show ?case by simp
qed

lemma visitPixel_parts:
  "fst (visitPixel img opts c p m r s) =
     fst (fold (visitNeighbor img opts c (id_r r) (p mod int (width img)) (p div int (width img)))
            [p - int (width img), p + int (width img), p - 1, p + 1] (m, s))"
  "snd (snd (visitPixel img opts c p m r s)) =
     snd (fold (visitNeighbor img opts c (id_r r) (p mod int (width img)) (p div int (width img)))
            [p - int (width img), p + int (width img), p - 1, p + 1] (m, s))"
  "pixels (fst (snd (visitPixel img opts c p m r s))) = pixels r @ [p]"
  "id_r (fst (snd (visitPixel img opts c p m r s))) = id_r r"
  "color (fst (snd (visitPixel img opts c p m r s))) = color r"
  by (simp_all add: visitPixel_def Let_def)

text \<open>
  The flood fill returns: \<open>2 * zeros m + length stack\<close> decreases with every pixel
  popped. On return the region holds, each once, the indices the map gives to its id,
  and the map differs from the one at the start only where a 0 became that id.
\<close>

lemma floodFill_returns:
  assumes "id_r r \<noteq> 0"
    and "distinct (pixels r @ s)" "set (pixels r) \<union> set s = owned m (id_r r)"
  shows "\<exists>m' r'. floodFill img opts c m r s = Some (m', r') \<and>
           id_r r' = id_r r \<and> color r' = color r \<and> length m' = length m \<and>
           (\<forall>j < length m. m' ! j = m ! j \<or> (m ! j = 0 \<and> m' ! j = id_r r)) \<and>
           distinct (pixels r') \<and> set (pixels r') = owned m' (id_r r)"
  using assms
proof (induction "2 * zeros m + length s" arbitrary: m r s rule: less_induct)
  case less
  show ?case
  proof (cases s)
    case Nil
    with less.prems show ?thesis by (simp add: floodFill_Nil)
  next
    case (Cons p rest)
    let ?k = "id_r r"
    let ?vp = "visitPixel img opts c p m r rest"
    let ?m1 = "fst ?vp" and ?r1 = "fst (snd ?vp)" and ?s1 = "snd (snd ?vp)"
    let ?f = "fold (visitNeighbor img opts c ?k (p mod int (width img)) (p div int (width img)))
            [p - int (width img), p + int (width img), p - 1, p + 1] (m, rest)"
    have g: "grows ?k (m, rest) ?f" using less.prems(1) by (rule grows_fold)
    have parts: "?m1 = fst ?f" "?s1 = snd ?f" "pixels ?r1 = pixels r @ [p]" "id_r ?r1 = ?k"
      "color ?r1 = color r"
      by (simp_all only: visitPixel_parts)
    have J: "distinct ((pixels r @ [p]) @ rest) \<and> set (pixels r @ [p]) \<union> set rest = owned m ?k"
      using less.prems(2,3) Cons by auto
    with g have J1: "distinct ((pixels r @ [p]) @ snd ?f) \<and>
        set (pixels r @ [p]) \<union> set (snd ?f) = owned (fst ?f) ?k"
      unfolding grows_def by (metis fst_conv snd_conv)
    have len1: "length (fst ?f) = length m" using g by (simp add: grows_def)
    have fr1: "\<forall>j < length m. fst ?f ! j = m ! j \<or> (m ! j = 0 \<and> fst ?f ! j = ?k)"
      using g by (simp add: grows_def)
    have "2 * zeros (fst ?f) + length (snd ?f) \<le> 2 * zeros m + length rest"
      using g by (simp add: grows_def)
    then have dec: "2 * zeros ?m1 + length ?s1 < 2 * zeros m + length s"
      using Cons parts by simp
    have "\<exists>m' r'. floodFill img opts c ?m1 ?r1 ?s1 = Some (m', r') \<and>
           id_r r' = id_r ?r1 \<and> color r' = color ?r1 \<and> length m' = length ?m1 \<and>
           (\<forall>j < length ?m1. m' ! j = ?m1 ! j \<or> (?m1 ! j = 0 \<and> m' ! j = id_r ?r1)) \<and>
           distinct (pixels r') \<and> set (pixels r') = owned m' (id_r ?r1)"
    proof (rule less.hyps [OF dec])
      show "id_r ?r1 \<noteq> 0" using less.prems(1) parts by simp
      show "distinct (pixels ?r1 @ ?s1)" using J1 parts by simp
      show "set (pixels ?r1) \<union> set ?s1 = owned ?m1 (id_r ?r1)" using J1 parts by simp
    qed
    then obtain m' r' where res: "floodFill img opts c ?m1 ?r1 ?s1 = Some (m', r')"
      "id_r r' = ?k" "color r' = color r" "length m' = length m"
      "\<forall>j < length m. m' ! j = fst ?f ! j \<or> (fst ?f ! j = 0 \<and> m' ! j = ?k)"
      "distinct (pixels r')" "set (pixels r') = owned m' ?k"
      using parts len1 by auto
    have "\<forall>j < length m. m' ! j = m ! j \<or> (m ! j = 0 \<and> m' ! j = ?k)"
      using res(5) fr1 less.prems(1) by (metis)
    with res Cons show ?thesis by (simp add: floodFill_Cons)
  qed
qed

lemma owned_eq_if_entries:
  assumes "length m' = length m" "\<And>j. j < length m \<Longrightarrow> (m' ! j = k) = (m ! j = k)"
  shows "owned m' k = owned m k"
proof -
  have "(0 \<le> p \<and> p < int (length m') \<and> m' ! nat p = k)
      = (0 \<le> p \<and> p < int (length m) \<and> m ! nat p = k)" for p
  proof (cases "0 \<le> p \<and> p < int (length m)")
    case True
    then have "nat p < length m" by linarith
    from assms(2) [OF this] assms(1) True show ?thesis by simp
  next
    case False
    then show ?thesis using assms(1) by auto
  qed
  then show ?thesis by (simp add: owned_def)
qed

lemma scanned_skip:
  assumes "scanned m rs nid i" "m ! i \<noteq> 0"
  shows "scanned m rs nid (Suc i)"
  using assms unfolding scanned_def by (auto simp add: less_Suc_eq)

lemma scanned_new_region:
  assumes sc: "scanned m rs nid i" and i: "i < length m" "m ! i = 0"
    and len: "length m' = length m"
    and frame: "\<forall>j < length m. m' ! j = m[i := nid] ! j \<or> (m[i := nid] ! j = 0 \<and> m' ! j = nid)"
    and r': "id_r r' = nid" "distinct (pixels r')" "set (pixels r') = owned m' nid"
  shows "scanned m' (rs @ [(nid, r')]) (nid + 1) (Suc i)"
proof -
  from sc have own: "regionsOwn m rs" and pos: "0 < nid"
    and keys: "\<forall>k \<in> fst ` set rs. k < nid"
    and ent: "\<forall>j < length m. m ! j = 0 \<or> m ! j \<in> fst ` set rs"
    and dn: "\<forall>j < i. j < length m \<longrightarrow> m ! j \<noteq> 0"
    unfolding scanned_def by blast+
  have fr: "m' ! j = (if j = i then nid else m ! j) \<or> (j \<noteq> i \<and> m ! j = 0 \<and> m' ! j = nid)"
    if "j < length m" for j
    using frame [rule_format, OF that] that pos by (cases "j = i") auto
  have same: "(m' ! j = k) = (m ! j = k)" if "j < length m" "k \<noteq> 0" "k \<noteq> nid" for j k
    using fr [OF that(1)] that(2,3) i(2) by auto
  have "regionsOwn m' (rs @ [(nid, r')])"
    unfolding regionsOwn_def
  proof (intro conjI ballI)
    show "distinct (map fst (rs @ [(nid, r')]))"
      using own keys by (auto simp add: regionsOwn_def)
  next
    fix e assume e: "e \<in> set (rs @ [(nid, r')])"
    show "case e of (k, r) \<Rightarrow>
        id_r r = k \<and> 0 < k \<and> distinct (pixels r) \<and> set (pixels r) = owned m' k"
    proof (cases "e \<in> set rs")
      case True
      obtain k r where kr: "e = (k, r)" by (cases e)
      with True own have o: "id_r r = k" "0 < k" "distinct (pixels r)" "set (pixels r) = owned m k"
        by (auto simp add: regionsOwn_def)
      from True kr keys have "k < nid" by force
      with o(2) have "owned m' k = owned m k"
        by (intro owned_eq_if_entries [OF len] same) simp_all
      with o kr show ?thesis by simp
    next
      case False
      with e have "e = (nid, r')" by simp
      with r' pos show ?thesis by simp
    qed
  qed
  moreover have "\<forall>k \<in> fst ` set (rs @ [(nid, r')]). k < nid + 1"
    using keys by auto
  moreover have "\<forall>j < length m'. m' ! j = 0 \<or> m' ! j \<in> fst ` set (rs @ [(nid, r')])"
  proof (intro allI impI)
    fix j assume "j < length m'"
    then have j: "j < length m" using len by simp
    have "m' ! j = nid \<or> m' ! j = m ! j" using fr [OF j] by (cases "j = i") auto
    moreover have "m ! j = 0 \<or> m ! j \<in> fst ` set rs" using ent j by blast
    ultimately show "m' ! j = 0 \<or> m' ! j \<in> fst ` set (rs @ [(nid, r')])"
      by force
  qed
  moreover have "\<forall>j < Suc i. j < length m' \<longrightarrow> m' ! j \<noteq> 0"
  proof (intro allI impI)
    fix j assume "j < Suc i" "j < length m'"
    then have j: "j < length m" "j \<le> i" using len by simp_all
    from fr [OF j(1)] dn j pos show "m' ! j \<noteq> 0"
      by (cases "j = i") auto
  qed
  ultimately show ?thesis using pos by (simp add: scanned_def)
qed

lemma owned_above:
  assumes "scanned m rs nid i"
  shows "owned m nid = {}"
proof -
  from assms have "\<forall>k \<in> fst ` set rs. k < nid" "0 < nid"
    "\<forall>j < length m. m ! j = 0 \<or> m ! j \<in> fst ` set rs"
    unfolding scanned_def by blast+
  then have "m ! j \<noteq> nid" if "j < length m" for j
    using that by (metis less_irrefl)
  then show ?thesis by (auto simp add: owned_def)
qed

lemma findRegionsFrom_scan:
  assumes "scanned m rs nid i" "i \<le> n" "n \<le> length m"
  shows "\<exists>m' rs' nid'. findRegionsFrom img opts [i..<n] (m, rs, nid) = Some (m', rs', nid') \<and>
           length m' = length m \<and> scanned m' rs' nid' n"
  using assms
proof (induction "n - i" arbitrary: i m rs nid)
  case 0
  then show ?case by simp
next
  case (Suc d)
  then have i: "i < n" "i < length m" by simp_all
  then have upt: "[i..<n] = i # [Suc i..<n]" by (simp add: upt_conv_Cons)
  have d: "d = n - Suc i" using Suc.hyps(2) by simp
  show ?case
  proof (cases "m ! i = 0")
    case False
    have "\<exists>m' rs' nid'.
        findRegionsFrom img opts [Suc i..<n] (m, rs, nid) = Some (m', rs', nid') \<and>
        length m' = length m \<and> scanned m' rs' nid' n"
      using Suc.hyps(1) [OF d scanned_skip [OF Suc.prems(1) False]] i Suc.prems(3) by simp
    with False show ?thesis unfolding upt by simp
  next
    case True
    from Suc.prems(1) have pos: "0 < nid" by (simp add: scanned_def)
    let ?m0 = "m[i := nid]"
    let ?r0 = "emptyRegion img nid"
    have ne: "m ! nat (int i) \<noteq> nid" using True pos by simp
    have "owned ?m0 nid = insert (int i) (owned m nid)"
      using owned_update [of "int i" m nid] i(2) ne by simp
    then have own0: "owned ?m0 nid = {int i}"
      using owned_above [OF Suc.prems(1)] by simp
    have "\<exists>m' r'. floodFill img opts (pixelColor img (int i)) ?m0 ?r0 [int i] = Some (m', r') \<and>
           id_r r' = id_r ?r0 \<and> color r' = color ?r0 \<and> length m' = length ?m0 \<and>
           (\<forall>j < length ?m0. m' ! j = ?m0 ! j \<or> (?m0 ! j = 0 \<and> m' ! j = id_r ?r0)) \<and>
           distinct (pixels r') \<and> set (pixels r') = owned m' (id_r ?r0)"
      by (rule floodFill_returns) (use pos own0 in \<open>simp_all add: emptyRegion_def\<close>)
    then obtain m' r' where ff:
      "floodFill img opts (pixelColor img (int i)) ?m0 ?r0 [int i] = Some (m', r')"
      "id_r r' = nid" "length m' = length m"
      "\<forall>j < length m. m' ! j = ?m0 ! j \<or> (?m0 ! j = 0 \<and> m' ! j = nid)"
      "distinct (pixels r')" "set (pixels r') = owned m' nid"
      by (auto simp add: emptyRegion_def)
    have sc: "scanned m' (rs @ [(nid, r')]) (nid + 1) (Suc i)"
      by (rule scanned_new_region [OF Suc.prems(1) i(2) True ff(3) ff(4) ff(2) ff(5) ff(6)])
    have "\<exists>m'' rs' nid'.
        findRegionsFrom img opts [Suc i..<n] (m', rs @ [(nid, r')], nid + 1)
          = Some (m'', rs', nid') \<and>
        length m'' = length m' \<and> scanned m'' rs' nid' n"
      using Suc.hyps(1) [OF d sc] i Suc.prems(3) ff(3) by simp
    with True ff(1,3) show ?thesis unfolding upt by simp
  qed
qed

lemma scanned_partitions:
  assumes "scanned m rs nid (length m)" "length m = width img * height img"
  shows "partitionsImage img m rs"
proof -
  from assms(1) have own: "regionsOwn m rs"
    and ent: "\<forall>j < length m. m ! j = 0 \<or> m ! j \<in> fst ` set rs"
    and nz: "\<forall>j < length m. m ! j \<noteq> 0"
    unfolding scanned_def by blast+
  have px: "set (pixels r) = owned m k" if "(k, r) \<in> set rs" for k r
    using own that by (auto simp add: regionsOwn_def)
  have "(\<exists>!k. \<exists>r. (k, r) \<in> set rs \<and> int i \<in> set (pixels r)) \<and>
        (\<exists>r. (m ! i, r) \<in> set rs \<and> int i \<in> set (pixels r))"
    if i: "i < width img * height img" for i
  proof -
    from i assms(2) have il: "i < length m" by simp
    with ent nz have "m ! i \<in> fst ` set rs" by blast
    then obtain r where r: "(m ! i, r) \<in> set rs" by force
    from il have "int i \<in> owned m (m ! i)" by (simp add: owned_def)
    with px [OF r] have mem: "int i \<in> set (pixels r)" by simp
    have "k = m ! i" if "(k, r') \<in> set rs" "int i \<in> set (pixels r')" for k r'
      using px [OF that(1)] that(2) by (simp add: owned_def)
    with r mem show ?thesis by blast
  qed
  with own assms(2) show ?thesis by (simp add: partitionsImage_def)
qed

lemma findRegions_returns:
  "\<exists>m rs nid. findRegions img opts = Some (m, rs, nid) \<and>
     length m = width img * height img \<and> scanned m rs nid (length m)"
proof -
  let ?n = "width img * height img"
  have "scanned (replicate ?n 0) [] 1 0" by (simp add: scanned_def regionsOwn_def)
  from findRegionsFrom_scan [OF this, of ?n img opts]
  show ?thesis by (auto simp add: findRegions_def)
qed

text \<open>
  Claim C1. For every raster the region finding of \<open>generatePbnImage\<close> returns, and its
  regions partition the image: every pixel is in the pixel list of exactly one region,
  once, and its entry in the region map is the id of that region.
\<close>

theorem findRegions_partitions_image:
  "\<exists>m rs nid. findRegions img opts = Some (m, rs, nid) \<and> partitionsImage img m rs"
  using findRegions_returns [of img opts] scanned_partitions by blast

theorem findRegions_partitions_image_witness:
  "partitionsImage
     \<lparr>width = 2, height = 2,
        data = [0, 0, 0, 255, 255, 255, 255, 255, 0, 0, 0, 255, 255, 255, 255, 255]\<rparr>
     [1, 2, 1, 2]
     [(1, \<lparr>id_r = 1, pixels = [0, 2], sumR = 0, sumG = 0, sumB = 0,
             minX = 0, minY = 0, maxX = 0, maxY = 1, color = None\<rparr>),
      (2, \<lparr>id_r = 2, pixels = [1, 3], sumR = 510, sumG = 510, sumB = 510,
             minX = 1, minY = 0, maxX = 1, maxY = 1, color = None\<rparr>)]"
  using findRegions_partitions_image
    [of "\<lparr>width = 2, height = 2,
           data = [0, 0, 0, 255, 255, 255, 255, 255, 0, 0, 0, 255, 255, 255, 255, 255]\<rparr>"
        "\<lparr>colorThreshold = 10, minRegionSize = 1, thinnessThreshold = 3 / 2\<rparr>"]
  by (simp add: findRegions_two_columns)

section \<open>Properties of the RegionMerger\<close>

lemma closestColorLoop_defined:
  "\<exists>c. closestColorLoop p (map Some cs) minD cc = Inr c \<and> (c = cc \<or> c \<in> Some ` set cs)"
proof (induction cs arbitrary: minD cc)
  case Nil
  then show ?case by simp
next
  case (Cons a cs)
  from Cons [of "Some (euclideanDistance p a)" "Some a"] Cons [of minD cc]
  show ?case by (auto simp add: euclideanDistanceU_def)
qed

lemma findClosestColor_defined:
  "\<exists>c. findClosestColor p (map Some cs) = Inr c \<and>
       (if cs = [] then c = None else c \<in> Some ` set cs)"
proof (cases cs)
  case Nil
  then show ?thesis by (simp add: findClosestColor_def atU_def)
next
  case (Cons a cs')
  from closestColorLoop_defined [of p cs None "Some a"] Cons
  show ?thesis by (auto simp add: findClosestColor_def atU_def)
qed

lemma list_all2_set1: "list_all2 P xs ys \<Longrightarrow> x \<in> set xs \<Longrightarrow> \<exists>y \<in> set ys. P x y"
  by (induction rule: list_all2_induct) auto

lemma list_all2_set2: "list_all2 P xs ys \<Longrightarrow> y \<in> set ys \<Longrightarrow> \<exists>x \<in> set xs. P x y"
  by (induction rule: list_all2_induct) auto

lemma list_all2_keys:
  "list_all2 (\<lambda>e' e. fst e' = fst e \<and> Q e' e) xs ys \<Longrightarrow> map fst xs = map fst ys"
  by (induction rule: list_all2_induct) auto

lemma assignColors_defined:
  "\<exists>rs'. assignColors (map Some cs) rs = Inr rs' \<and> coloredBy cs rs' \<and>
     list_all2 (\<lambda>e' e. fst e' = fst e \<and> (\<exists>c. snd e' = (snd e)\<lparr>color := c\<rparr>)) rs'
       (filter (\<lambda>e. pixels (snd e) \<noteq> []) rs)"
proof (induction rs)
  case Nil
  then show ?case by (simp add: coloredBy_def)
next
  case (Cons e rs)
  obtain i region where e: "e = (i, region)" by (cases e)
  from Cons obtain rs' where rs': "assignColors (map Some cs) rs = Inr rs'" "coloredBy cs rs'"
    "list_all2 (\<lambda>e' e. fst e' = fst e \<and> (\<exists>c. snd e' = (snd e)\<lparr>color := c\<rparr>)) rs'
       (filter (\<lambda>e. pixels (snd e) \<noteq> []) rs)"
    by blast
  show ?case
  proof (cases "pixels region = []")
    case True
    with rs' e show ?thesis by auto
  next
    case False
    let ?avg = "(of_int (sumR region) / real (length (pixels region)),
                 of_int (sumG region) / real (length (pixels region)),
                 of_int (sumB region) / real (length (pixels region)))"
    from findClosestColor_defined [of ?avg cs] obtain c where
      c: "findClosestColor ?avg (map Some cs) = Inr c"
      "if cs = [] then c = None else c \<in> Some ` set cs"
      by blast
    have eq: "assignColors (map Some cs) (e # rs) = Inr ((i, region\<lparr>color := c\<rparr>) # rs')"
      using False e c(1) rs'(1) by simp
    have "coloredBy cs ((i, region\<lparr>color := c\<rparr>) # rs')"
      using rs'(2) c(2) by (simp add: coloredBy_def)
    moreover have "list_all2 (\<lambda>e' e. fst e' = fst e \<and> (\<exists>c. snd e' = (snd e)\<lparr>color := c\<rparr>))
        ((i, region\<lparr>color := c\<rparr>) # rs') (filter (\<lambda>e. pixels (snd e) \<noteq> []) (e # rs))"
      using rs'(3) False e by auto
    ultimately show ?thesis using eq by blast
  qed
qed

lemma mergeInv_after_colors:
  assumes "scanned m rs nid (length m)"
    and a: "coloredBy cs rs'"
      "list_all2 (\<lambda>e' e. fst e' = fst e \<and> (\<exists>c. snd e' = (snd e)\<lparr>color := c\<rparr>)) rs'
         (filter (\<lambda>e. pixels (snd e) \<noteq> []) rs)"
  shows "mergeInv cs (m, rs')"
proof -
  from assms(1) have own: "regionsOwn m rs"
    and ent: "\<forall>j < length m. m ! j = 0 \<or> m ! j \<in> fst ` set rs"
    and nz: "\<forall>j < length m. m ! j \<noteq> 0"
    unfolding scanned_def by blast+
  have keys: "map fst rs' = map fst (filter (\<lambda>e. pixels (snd e) \<noteq> []) rs)"
    using a(2) by (rule list_all2_keys)
  have "distinct (map fst rs)" using own by (simp add: regionsOwn_def)
  then have d: "distinct (map fst rs')" unfolding keys by (simp add: distinct_map_filter)
  have "regionsOwn m rs'"
    unfolding regionsOwn_def
  proof (intro conjI ballI)
    show "distinct (map fst rs')" by (rule d)
  next
    fix e assume e: "e \<in> set rs'"
    from list_all2_set1 [OF a(2) e] obtain e0 c where
      e0: "e0 \<in> set rs" "fst e = fst e0" "snd e = (snd e0)\<lparr>color := c\<rparr>" by auto
    from own e0(1) have "id_r (snd e0) = fst e0 \<and> 0 < fst e0 \<and> distinct (pixels (snd e0))
        \<and> set (pixels (snd e0)) = owned m (fst e0)"
      by (auto simp add: regionsOwn_def)
    with e0(2,3) show "case e of (k, r) \<Rightarrow>
        id_r r = k \<and> 0 < k \<and> distinct (pixels r) \<and> set (pixels r) = owned m k"
      by (cases e) simp
  qed
  moreover have "\<forall>j < length m. m ! j \<in> fst ` set rs'"
  proof (intro allI impI)
    fix j assume j: "j < length m"
    with ent nz obtain r0 where r0: "(m ! j, r0) \<in> set rs" by force
    with own have "set (pixels r0) = owned m (m ! j)" by (auto simp add: regionsOwn_def)
    moreover have "int j \<in> owned m (m ! j)" using j by (simp add: owned_def)
    ultimately have "pixels r0 \<noteq> []" by auto
    with r0 have "(m ! j, r0) \<in> set (filter (\<lambda>e. pixels (snd e) \<noteq> []) rs)" by simp
    from list_all2_set2 [OF a(2) this] show "m ! j \<in> fst ` set rs'" by force
  qed
  ultimately show ?thesis using a(1) by (simp add: mergeInv_def)
qed

lemma ball_alist_iff:
  "distinct (map fst rs) \<Longrightarrow>
   (\<forall>(k, r) \<in> set rs. P k r) \<longleftrightarrow> (\<forall>k r. map_of rs k = Some r \<longrightarrow> P k r)"
  by auto

lemma regionsOwn_iff:
  "regionsOwn m rs \<longleftrightarrow>
     distinct (map fst rs) \<and>
     (\<forall>k r. map_of rs k = Some r \<longrightarrow>
        id_r r = k \<and> 0 < k \<and> distinct (pixels r) \<and> set (pixels r) = owned m k)"
proof (cases "distinct (map fst rs)")
  case True
  show ?thesis unfolding regionsOwn_def ball_alist_iff [OF True] by (simp only: True simp_thms)
next
  case False
  then show ?thesis by (simp only: regionsOwn_def simp_thms)
qed

lemma regionsOwn_lookup:
  assumes "regionsOwn m rs" "map_of rs k = Some r"
  shows "id_r r = k" "0 < k" "distinct (pixels r)" "set (pixels r) = owned m k"
  using assms unfolding regionsOwn_iff by blast+

lemma coloredBy_iff:
  "distinct (map fst rs) \<Longrightarrow>
   coloredBy cs rs \<longleftrightarrow>
     (\<forall>k r. map_of rs k = Some r \<longrightarrow>
        (if cs = [] then color r = None else color r \<in> Some ` set cs))"
  unfolding coloredBy_def by (rule ball_alist_iff)

lemma fold_update_nth:
  assumes "\<forall>p \<in> set ps. 0 \<le> p \<and> p < int (length m)" "j < length m"
  shows "length (fold (\<lambda>p m. m[nat p := b]) ps m) = length m \<and>
         fold (\<lambda>p m. m[nat p := b]) ps m ! j = (if int j \<in> set ps then b else m ! j)"
  using assms
proof (induction ps arbitrary: m)
  case Nil
  then show ?case by simp
next
  case (Cons p ps)
  have p: "0 \<le> p" "p < int (length m)" using Cons.prems(1) by simp_all
  have "\<forall>q \<in> set ps. 0 \<le> q \<and> q < int (length (m[nat p := b]))" using Cons.prems(1) by simp
  from Cons.IH [OF this] Cons.prems(2)
  have IH: "length (fold (\<lambda>p m. m[nat p := b]) ps (m[nat p := b])) = length m"
    "fold (\<lambda>p m. m[nat p := b]) ps (m[nat p := b]) ! j
       = (if int j \<in> set ps then b else m[nat p := b] ! j)"
    by simp_all
  have "m[nat p := b] ! j = (if int j = p then b else m ! j)"
    using p Cons.prems(2) by (cases "int j = p") auto
  with IH show ?case by auto
qed

lemma addNeighbor_live:
  "set ids \<subseteq> {k. k \<noteq> id_r region \<and> map_of rs k \<noteq> None} \<Longrightarrow>
   set (addNeighbor m rs region nb ids) \<subseteq> {k. k \<noteq> id_r region \<and> map_of rs k \<noteq> None}"
  by (auto simp add: addNeighbor_def setAdd_def Let_def)

lemma fold_addNeighbor_live:
  "set ids \<subseteq> {k. k \<noteq> id_r region \<and> map_of rs k \<noteq> None} \<Longrightarrow>
   set (fold (addNeighbor m rs region) nbs ids) \<subseteq> {k. k \<noteq> id_r region \<and> map_of rs k \<noteq> None}"
proof (induction nbs arbitrary: ids)
  case Nil
  then show ?case by simp
next
  case (Cons nb nbs)
  from Cons.IH [OF addNeighbor_live [OF Cons.prems]] show ?case by simp
qed

lemma fold_pixels_live:
  "set ids \<subseteq> {k. k \<noteq> id_r region \<and> map_of rs k \<noteq> None} \<Longrightarrow>
   set (fold (\<lambda>p. fold (addNeighbor m rs region) (nbs p)) ps ids)
     \<subseteq> {k. k \<noteq> id_r region \<and> map_of rs k \<noteq> None}"
proof (induction ps arbitrary: ids)
  case Nil
  then show ?case by simp
next
  case (Cons p ps)
  from Cons.IH [OF fold_addNeighbor_live [OF Cons.prems]] show ?case by simp
qed

lemma neighborIdsOf_live:
  "set (neighborIdsOf img m rs region) \<subseteq> {k. k \<noteq> id_r region \<and> map_of rs k \<noteq> None}"
  unfolding neighborIdsOf_def by (rule fold_pixels_live) simp

lemma chooseNeighbor_defined:
  assumes "\<forall>n \<in> set nids. \<exists>nb. map_of rs n = Some nb \<and>
             (if cs = [] then color nb = None else color nb \<in> Some ` set cs)"
    and "if cs = [] then color region = None else color region \<in> Some ` set cs"
  shows "\<exists>b. chooseNeighbor rs region nids minDiff best = Inr b \<and> (b = best \<or> b \<in> set nids)"
  using assms(1)
proof (induction nids arbitrary: minDiff best)
  case Nil
  then show ?case by simp
next
  case (Cons n nids)
  from Cons.prems obtain nb where nb: "map_of rs n = Some nb"
    "if cs = [] then color nb = None else color nb \<in> Some ` set cs" by auto
  have rest: "\<forall>n \<in> set nids. \<exists>nb. map_of rs n = Some nb \<and>
             (if cs = [] then color nb = None else color nb \<in> Some ` set cs)"
    using Cons.prems by simp
  show ?case
  proof (cases "color nb = color region")
    case True
    with nb show ?thesis by simp
  next
    case False
    with nb(2) assms(2) obtain a c where ac: "color region = Some a" "color nb = Some c"
      by (cases "cs = []") auto
    from Cons.IH [OF rest, of "Some (euclideanDistance a c)" n] Cons.IH [OF rest, of minDiff best]
    show ?thesis using nb(1) False ac by (auto simp add: euclideanDistanceU_def)
  qed
qed

lemma fold_update_length: "length (fold (\<lambda>p m. m[nat p := b]) ps m) = length m"
  by (induction ps arbitrary: m) simp_all

lemma merged_map_entries:
  assumes "regionsOwn m rs" "map_of rs i = Some region" "j < length m"
  shows "fold (\<lambda>p m. m[nat p := b]) (pixels region) m ! j = (if m ! j = i then b else m ! j)"
proof -
  have px: "set (pixels region) = owned m i" using assms(1,2) by (rule regionsOwn_lookup)
  then have rng: "\<forall>p \<in> set (pixels region). 0 \<le> p \<and> p < int (length m)"
    by (auto simp add: owned_def)
  have "int j \<in> set (pixels region) \<longleftrightarrow> m ! j = i"
    unfolding px using assms(3) by (simp add: owned_def)
  with fold_update_nth [OF rng assms(3), of b] show ?thesis by simp
qed

lemma owned_merged:
  assumes "length m' = length m" "\<forall>j < length m. m' ! j = (if m ! j = i then b else m ! j)"
    and "b \<noteq> i"
  shows "owned m' b = owned m b \<union> owned m i"
    and "k \<noteq> b \<Longrightarrow> k \<noteq> i \<Longrightarrow> owned m' k = owned m k"
    and "owned m' i = {}"
proof -
  have e: "m' ! nat p = (if m ! nat p = i then b else m ! nat p)"
    if "0 \<le> p" "p < int (length m)" for p
  proof -
    from that have "nat p < length m" by linarith
    then show ?thesis using assms(2) by blast
  qed
  show "owned m' b = owned m b \<union> owned m i"
    using assms(1,3) e by (auto simp add: owned_def)
  show "k \<noteq> b \<Longrightarrow> k \<noteq> i \<Longrightarrow> owned m' k = owned m k"
    using assms(1) e by (auto simp add: owned_def)
  show "owned m' i = {}"
    using assms(1,3) e by (auto simp add: owned_def)
qed

lemma owned_disjoint: "k \<noteq> k' \<Longrightarrow> owned m k \<inter> owned m k' = {}"
  by (auto simp add: owned_def)

lemma merge_into:
  assumes inv: "mergeInv cs (m, rs)"
    and r: "map_of rs i = Some region" and t: "map_of rs b = Some target" and ne: "b \<noteq> i"
    and m': "m' = fold (\<lambda>p m. m[nat p := b]) (pixels region) m"
    and t': "pixels target' = pixels target @ pixels region" "id_r target' = id_r target"
      "color target' = color target"
    and rs': "rs' = AList.delete i (AList.update b target' rs)"
  shows "mergeInv cs (m', rs') \<and> reassigned (m, rs) (m', rs')"
proof -
  from inv have own: "regionsOwn m rs" and ent: "\<forall>j < length m. m ! j \<in> fst ` set rs"
    and col: "coloredBy cs rs"
    by (simp_all add: mergeInv_def)
  from own have d: "distinct (map fst rs)" by (simp add: regionsOwn_def)
  have len: "length m' = length m" unfolding m' by (rule fold_update_length)
  have entry: "\<And>j. j < length m \<Longrightarrow> m' ! j = (if m ! j = i then b else m ! j)"
    unfolding m' using merged_map_entries [OF own r] by simp
  have d': "distinct (map fst rs')" unfolding rs' using d
    by (simp add: distinct_delete distinct_update)
  have look: "map_of rs' k = (if k = i then None else if k = b then Some target' else map_of rs k)"
    for k
    unfolding rs' by (simp add: delete_conv' update_conv')
  have "\<forall>j < length m. m' ! j = (if m ! j = i then b else m ! j)" using entry by blast
  note ow = owned_merged [OF len this ne]
  have "\<forall>k r. map_of rs' k = Some r \<longrightarrow>
        id_r r = k \<and> 0 < k \<and> distinct (pixels r) \<and> set (pixels r) = owned m' k"
  proof (intro allI impI)
    fix k r' assume kr: "map_of rs' k = Some r'"
    then have ki: "k \<noteq> i" by (simp add: look split: if_splits)
    show "id_r r' = k \<and> 0 < k \<and> distinct (pixels r') \<and> set (pixels r') = owned m' k"
    proof (cases "k = b")
      case True
      with kr ki have r': "r' = target'" by (simp add: look)
      note T = regionsOwn_lookup [OF own t] and R = regionsOwn_lookup [OF own r]
      have "set (pixels target) \<inter> set (pixels region) = {}"
        unfolding T(4) R(4) using ne by (rule owned_disjoint)
      with T R True r' t' ow(1) show ?thesis by auto
    next
      case False
      with kr ki have "map_of rs k = Some r'" by (simp add: look)
      from regionsOwn_lookup [OF own this] ow(2) [OF False ki] show ?thesis by simp
    qed
  qed
  with d' have "regionsOwn m' rs'" unfolding regionsOwn_iff by blast
  moreover have "\<forall>j < length m'. m' ! j \<in> fst ` set rs'"
  proof (intro allI impI)
    fix j assume "j < length m'"
    then have j: "j < length m" using len by simp
    have "m' ! j \<noteq> i" using entry [OF j] ne by auto
    moreover have "map_of rs (m' ! j) \<noteq> None"
    proof (cases "m ! j = i")
      case True
      then show ?thesis using entry [OF j] t by simp
    next
      case False
      from ent j have "m ! j \<in> dom (map_of rs)" by (simp add: dom_map_of_conv_image_fst)
      with False show ?thesis using entry [OF j] by auto
    qed
    ultimately have "map_of rs' (m' ! j) \<noteq> None" by (simp add: look)
    then have "m' ! j \<in> dom (map_of rs')" by blast
    then show "m' ! j \<in> fst ` set rs'" by (simp add: dom_map_of_conv_image_fst)
  qed
  moreover have "coloredBy cs rs'"
    unfolding coloredBy_iff [OF d']
  proof (intro allI impI)
    fix k r' assume kr: "map_of rs' k = Some r'"
    from col have c: "\<And>k r. map_of rs k = Some r \<Longrightarrow>
        (if cs = [] then color r = None else color r \<in> Some ` set cs)"
      unfolding coloredBy_iff [OF d] by blast
    show "if cs = [] then color r' = None else color r' \<in> Some ` set cs"
    proof (cases "k = b")
      case True
      with kr have "r' = target'" by (simp add: look split: if_splits)
      with c [OF t] t'(3) show ?thesis by simp
    next
      case False
      with kr have "map_of rs k = Some r'" by (simp add: look split: if_splits)
      then show ?thesis by (rule c)
    qed
  qed
  moreover have "reassigned (m, rs) (m', rs')"
    unfolding reassigned_def fst_conv snd_conv
  proof (intro conjI allI impI)
    show "length m' = length m" by (rule len)
  next
    fix k assume "map_of rs k \<noteq> None \<and> map_of rs' k = None"
    then have k: "k = i" using ne by (auto simp add: look split: if_splits)
    have "map_of rs' b \<noteq> None" using ne by (simp add: look)
    moreover have "\<forall>j < length m. m ! j = k \<longrightarrow> m' ! j = b" using entry k by simp
    ultimately show "\<exists>t. map_of rs' t \<noteq> None \<and> (\<forall>j < length m. m ! j = k \<longrightarrow> m' ! j = t)"
      by blast
  next
    fix j assume j: "j < length m" "map_of rs' (m ! j) \<noteq> None"
    then have "m ! j \<noteq> i" by (auto simp add: look)
    with entry [OF j(1)] show "m' ! j = m ! j" by simp
  qed
  ultimately show ?thesis by (simp add: mergeInv_def)
qed

lemma reassigned_refl: "reassigned st st"
  by (auto simp add: reassigned_def)

lemma mergeStep_inv:
  assumes inv: "mergeInv cs (m, rs)"
  shows "\<exists>m' rs'. mergeStep img opts i (m, rs) = Inr (m', rs') \<and>
           mergeInv cs (m', rs') \<and> reassigned (m, rs) (m', rs')"
proof (cases "map_of rs i")
  case None
  with inv show ?thesis by (simp add: mergeStep_def reassigned_refl)
next
  case (Some region)
  from inv have own: "regionsOwn m rs" and col: "coloredBy cs rs"
    by (simp_all add: mergeInv_def)
  from own have d: "distinct (map fst rs)" by (simp add: regionsOwn_def)
  from col have c: "\<And>k r. map_of rs k = Some r \<Longrightarrow>
      (if cs = [] then color r = None else color r \<in> Some ` set cs)"
    unfolding coloredBy_iff [OF d] by blast
  have idr: "id_r region = i" using own Some by (rule regionsOwn_lookup)
  show ?thesis
  proof (cases "\<not> isSmall opts region \<and> \<not> isThin img opts region")
    case True
    with Some inv show ?thesis by (simp add: mergeStep_def reassigned_refl)
  next
    case False
    let ?nids = "neighborIdsOf img m rs region"
    have live: "\<forall>n \<in> set ?nids. n \<noteq> i \<and> map_of rs n \<noteq> None"
      using neighborIdsOf_live [of img m rs region] idr by auto
    then have "\<forall>n \<in> set ?nids. \<exists>nb. map_of rs n = Some nb \<and>
             (if cs = [] then color nb = None else color nb \<in> Some ` set cs)"
      using c by fastforce
    from chooseNeighbor_defined [OF this c [OF Some], of None "- 1"]
    obtain b where b: "chooseNeighbor rs region ?nids None (- 1) = Inr b"
      "b = - 1 \<or> b \<in> set ?nids" by blast
    show ?thesis
    proof (cases "b = - 1")
      case True
      have cand: "(\<not> isSmall opts region \<and> \<not> isThin img opts region) = False"
        using False by simp
      have "mergeStep img opts i (m, rs) = Inr (m, rs)"
        unfolding mergeStep_def using Some b(1) True by (simp add: cand del: de_Morgan_conj)
      with inv show ?thesis by (simp add: reassigned_refl)
    next
      case nb: False
      with b(2) live have bi: "b \<noteq> i" and "map_of rs b \<noteq> None" by auto
      then obtain target where t: "map_of rs b = Some target" by blast
      let ?target' = "target
            \<lparr>pixels := pixels target @ pixels region,
             minX := min (minX target) (minX region),
             minY := min (minY target) (minY region),
             maxX := max (maxX target) (maxX region),
             maxY := max (maxY target) (maxY region)\<rparr>"
      let ?m' = "fold (\<lambda>pixelIndex m. m[nat pixelIndex := b]) (pixels region) m"
      let ?rs' = "AList.delete i (AList.update b ?target' rs)"
      have cand: "(\<not> isSmall opts region \<and> \<not> isThin img opts region) = False"
        using False by simp
      have step: "mergeStep img opts i (m, rs) = Inr (?m', ?rs')"
        unfolding mergeStep_def using Some b(1) nb t by (simp add: cand del: de_Morgan_conj)
      have "mergeInv cs (?m', ?rs') \<and> reassigned (m, rs) (?m', ?rs')"
        by (rule merge_into [OF inv Some t bi refl _ _ _ refl]) simp_all
      with step show ?thesis by blast
    qed
  qed
qed

lemma mergeRegions_inv:
  assumes "mergeInv cs st"
  shows "\<exists>st'. mergeRegions img opts ids st = Inr st' \<and> mergeInv cs st'"
  using assms
proof (induction ids arbitrary: st)
  case Nil
  then show ?case by simp
next
  case (Cons i ids)
  obtain m rs where st: "st = (m, rs)" by (cases st)
  from mergeStep_inv [OF Cons.prems [unfolded st], of img opts i] obtain m' rs' where
    s: "mergeStep img opts i (m, rs) = Inr (m', rs')" "mergeInv cs (m', rs')" by blast
  from Cons.IH [OF s(2)] s(1) st show ?case by simp
qed

lemma mergeRegions_snoc:
  "mergeRegions img opts (ids @ [i]) st =
     (case mergeRegions img opts ids st of Inl e \<Rightarrow> Inl e | Inr st' \<Rightarrow> mergeStep img opts i st')"
  by (induction ids arbitrary: st) (auto split: sum.splits)

lemma mapLive_if_mergeInv: "mergeInv cs (m, rs) \<Longrightarrow> mapLive m rs"
proof -
  assume "mergeInv cs (m, rs)"
  then have "\<forall>j < length m. m ! j \<in> dom (map_of rs)"
    by (simp add: mergeInv_def dom_map_of_conv_image_fst)
  then show ?thesis unfolding mapLive_def by blast
qed

lemma merge_pass_start:
  "\<exists>m rs nid rs'. findRegions img opts = Some (m, rs, nid) \<and>
     length m = width img * height img \<and>
     assignColors (map Some cs) rs = Inr rs' \<and> mergeInv cs (m, rs')"
proof -
  from findRegions_returns [of img opts] obtain m rs nid where
    f: "findRegions img opts = Some (m, rs, nid)" "length m = width img * height img"
    "scanned m rs nid (length m)" by blast
  from assignColors_defined [of cs rs] obtain rs' where
    a: "assignColors (map Some cs) rs = Inr rs'" "coloredBy cs rs'"
    "list_all2 (\<lambda>e' e. fst e' = fst e \<and> (\<exists>c. snd e' = (snd e)\<lparr>color := c\<rparr>)) rs'
       (filter (\<lambda>e. pixels (snd e) \<noteq> []) rs)" by blast
  from mergeInv_after_colors [OF f(3) a(2,3)] f a(1) show ?thesis by blast
qed

text \<open>
  Claim C6. For every raster and every palette of defined colours, the merge pass raises
  no error, and after each of its iterations (\<open>n\<close> of them, for every \<open>n\<close>) every nonzero
  entry of the region map is the id of a region of the table. An iteration that deletes a
  region has moved every entry of that region to the id of its target, which is live
  after the iteration, and has left the entries of the other regions unchanged.
\<close>

theorem merge_pass_keeps_map_live:
  "\<exists>m rs m' rs'.
     mergedAfter img (map Some cs) opts n = Some (Inr (m, rs)) \<and>
     mergedAfter img (map Some cs) opts (Suc n) = Some (Inr (m', rs')) \<and>
     mapLive m rs \<and> mapLive m' rs' \<and> reassigned (m, rs) (m', rs')"
proof -
  from merge_pass_start [of img opts cs] obtain m0 rs0 nid rs1 where
    s: "findRegions img opts = Some (m0, rs0, nid)" "assignColors (map Some cs) rs0 = Inr rs1"
    "mergeInv cs (m0, rs1)" by blast
  let ?ids = "sortedRegionIds rs1"
  from mergeRegions_inv [OF s(3), of img opts "take n ?ids"] obtain m rs where
    a: "mergeRegions img opts (take n ?ids) (m0, rs1) = Inr (m, rs)" "mergeInv cs (m, rs)"
    by (metis surj_pair)
  have A: "mergedAfter img (map Some cs) opts n = Some (Inr (m, rs))"
    using s(1,2) a(1) by (simp add: mergedAfter_def)
  show ?thesis
  proof (cases "n < length ?ids")
    case True
    then have tk: "take (Suc n) ?ids = take n ?ids @ [?ids ! n]"
      by (rule take_Suc_conv_app_nth)
    from mergeStep_inv [OF a(2), of img opts "?ids ! n"] obtain m' rs' where
      b: "mergeStep img opts (?ids ! n) (m, rs) = Inr (m', rs')" "mergeInv cs (m', rs')"
      "reassigned (m, rs) (m', rs')" by blast
    have "mergedAfter img (map Some cs) opts (Suc n) = Some (Inr (m', rs'))"
      using s(1,2) a(1) b(1) by (simp add: mergedAfter_def tk mergeRegions_snoc)
    with A a(2) b(2,3) show ?thesis by (blast intro: mapLive_if_mergeInv)
  next
    case False
    then have "take (Suc n) ?ids = take n ?ids" by simp
    then have "mergedAfter img (map Some cs) opts (Suc n) = Some (Inr (m, rs))"
      using s(1,2) a(1) by (simp add: mergedAfter_def)
    with A a(2) show ?thesis by (blast intro: mapLive_if_mergeInv reassigned_refl)
  qed
qed

theorem merge_pass_keeps_map_live_witness:
  "mapLive [2, 2, 2, 2]
     [(2, \<lparr>id_r = 2, pixels = [1, 3, 0, 2], sumR = 510, sumG = 510, sumB = 510,
             minX = 0, minY = 0, maxX = 1, maxY = 1, color = Some (255, 255, 255)\<rparr>)] \<and>
   reassigned
     ([1, 2, 1, 2],
      [(1, \<lparr>id_r = 1, pixels = [0, 2], sumR = 0, sumG = 0, sumB = 0,
              minX = 0, minY = 0, maxX = 0, maxY = 1, color = Some (0, 0, 0)\<rparr>),
       (2, \<lparr>id_r = 2, pixels = [1, 3], sumR = 510, sumG = 510, sumB = 510,
              minX = 1, minY = 0, maxX = 1, maxY = 1, color = Some (255, 255, 255)\<rparr>)])
     ([2, 2, 2, 2],
      [(2, \<lparr>id_r = 2, pixels = [1, 3, 0, 2], sumR = 510, sumG = 510, sumB = 510,
              minX = 0, minY = 0, maxX = 1, maxY = 1, color = Some (255, 255, 255)\<rparr>)])"
  using merge_pass_keeps_map_live
    [of "\<lparr>width = 2, height = 2,
           data = [0, 0, 0, 255, 255, 255, 255, 255, 0, 0, 0, 255, 255, 255, 255, 255]\<rparr>"
        "[(0, 0, 0), (255, 255, 255)]"
        "\<lparr>colorThreshold = 10, minRegionSize = 3, thinnessThreshold = 3 / 2\<rparr>" 0]
  by (simp add: mergedAfter_two_columns)

section \<open>Properties of the coloured raster\<close>

lemma toUint8Clamp_byte: "0 \<le> v \<Longrightarrow> v \<le> 255 \<Longrightarrow> toUint8Clamp (of_int v) = v"
  by (simp add: toUint8Clamp_def)

lemma paint_update_nth:
  assumes "i * 4 + 3 < length d"
  shows "d[i * 4 := a0, i * 4 + 1 := a1, i * 4 + 2 := a2, i * 4 + 3 := a3] ! k =
     (if k div 4 = i then [a0, a1, a2, a3] ! (k mod 4) else d ! k)"
proof (cases "k div 4 = i")
  case True
  then have k: "k = i * 4 + k mod 4" by (metis div_mult_mod_eq)
  have "k mod 4 < 4" by simp
  then consider "k mod 4 = 0" | "k mod 4 = 1" | "k mod 4 = 2" | "k mod 4 = 3" by linarith
  then show ?thesis
  proof cases
    case 1
    with k have "k = i * 4" by simp
    then have l: "d[i * 4 := a0, i * 4 + 1 := a1, i * 4 + 2 := a2, i * 4 + 3 := a3] ! k = a0"
      using assms by simp
    show ?thesis unfolding l using True 1 by simp
  next
    case 2
    with k have "k = i * 4 + 1" by simp
    then have l: "d[i * 4 := a0, i * 4 + 1 := a1, i * 4 + 2 := a2, i * 4 + 3 := a3] ! k = a1"
      using assms by simp
    show ?thesis unfolding l using True 2 by simp
  next
    case 3
    with k have "k = i * 4 + 2" by simp
    then have l: "d[i * 4 := a0, i * 4 + 1 := a1, i * 4 + 2 := a2, i * 4 + 3 := a3] ! k = a2"
      using assms by simp
    show ?thesis unfolding l using True 3 by simp
  next
    case 4
    with k have "k = i * 4 + 3" by simp
    then have l: "d[i * 4 := a0, i * 4 + 1 := a1, i * 4 + 2 := a2, i * 4 + 3 := a3] ! k = a3"
      using assms by simp
    show ?thesis unfolding l using True 4 by simp
  qed
next
  case False
  then have "k \<noteq> i * 4" "k \<noteq> i * 4 + 1" "k \<noteq> i * 4 + 2" "k \<noteq> i * 4 + 3"
    by (auto simp del: distrib_right_numeral)
  with False show ?thesis by simp
qed

lemma paintPixels_defined:
  assumes "\<forall>i \<in> set idxs. i * 4 + 3 < length d \<and> 0 < m ! i \<and>
             (\<exists>r c. map_of rs (m ! i) = Some r \<and> color r = Some c)"
  shows "\<exists>d'. paintPixels m rs idxs d = Inr d' \<and> length d' = length d \<and>
           (\<forall>k < length d. k div 4 \<in> set idxs \<longrightarrow>
              (\<exists>r c. map_of rs (m ! (k div 4)) = Some r \<and> color r = Some c \<and>
                 d' ! k = [toUint8Clamp (fst c), toUint8Clamp (fst (snd c)),
                           toUint8Clamp (snd (snd c)), 255] ! (k mod 4)))"
  using assms
proof (induction idxs arbitrary: d rule: rev_induct)
  case Nil
  then show ?case by simp
next
  case (snoc i idxs)
  have pre: "\<forall>i \<in> set idxs. i * 4 + 3 < length d \<and> 0 < m ! i \<and>
             (\<exists>r c. map_of rs (m ! i) = Some r \<and> color r = Some c)"
    using snoc.prems by simp
  from snoc.IH [OF pre] obtain d1 where d1: "paintPixels m rs idxs d = Inr d1"
    "length d1 = length d"
    "\<forall>k < length d. k div 4 \<in> set idxs \<longrightarrow>
              (\<exists>r c. map_of rs (m ! (k div 4)) = Some r \<and> color r = Some c \<and>
                 d1 ! k = [toUint8Clamp (fst c), toUint8Clamp (fst (snd c)),
                           toUint8Clamp (snd (snd c)), 255] ! (k mod 4))"
    by blast
  from snoc.prems obtain r c where i: "i * 4 + 3 < length d" "0 < m ! i"
    "map_of rs (m ! i) = Some r" "color r = Some c" by auto
  let ?d2 = "d1[i * 4 := toUint8Clamp (fst c), i * 4 + 1 := toUint8Clamp (fst (snd c)),
                i * 4 + 2 := toUint8Clamp (snd (snd c)), i * 4 + 3 := 255]"
  have app: "paintPixels m rs (idxs @ [i]) d = Inr ?d2"
    using d1(1) i(2,3,4)
  proof (induction idxs arbitrary: d)
    case Nil
    then show ?case by (simp add: Let_def)
  next
    case (Cons j idxs)
    then show ?case by (auto simp add: Let_def split: option.splits if_splits)
  qed
  have nth: "?d2 ! k = (if k div 4 = i
      then [toUint8Clamp (fst c), toUint8Clamp (fst (snd c)), toUint8Clamp (snd (snd c)), 255]
             ! (k mod 4)
      else d1 ! k)" for k
    using i(1) d1(2) by (intro paint_update_nth) simp
  have "\<forall>k < length d. k div 4 \<in> set (idxs @ [i]) \<longrightarrow>
              (\<exists>r c. map_of rs (m ! (k div 4)) = Some r \<and> color r = Some c \<and>
                 ?d2 ! k = [toUint8Clamp (fst c), toUint8Clamp (fst (snd c)),
                           toUint8Clamp (snd (snd c)), 255] ! (k mod 4))"
  proof (intro allI impI)
    fix k assume k: "k < length d" "k div 4 \<in> set (idxs @ [i])"
    show "\<exists>r c. map_of rs (m ! (k div 4)) = Some r \<and> color r = Some c \<and>
                 ?d2 ! k = [toUint8Clamp (fst c), toUint8Clamp (fst (snd c)),
                           toUint8Clamp (snd (snd c)), 255] ! (k mod 4)"
    proof (cases "k div 4 = i")
      case True
      with i(3,4) nth [of k] show ?thesis
        by (intro exI [of _ r] exI [of _ c]) (simp del: split_paired_Ex)
    next
      case False
      with k have "k div 4 \<in> set idxs" by simp
      with d1(3) k(1) obtain r' c' where "map_of rs (m ! (k div 4)) = Some r'"
        "color r' = Some c'"
        "d1 ! k = [toUint8Clamp (fst c'), toUint8Clamp (fst (snd c')),
                           toUint8Clamp (snd (snd c')), 255] ! (k mod 4)" by blast
      with False nth [of k] show ?thesis
        by (intro exI [of _ r'] exI [of _ c']) (simp del: split_paired_Ex)
    qed
  qed
  with app d1(2) show ?case by (intro exI [of _ ?d2]) simp
qed

lemma mergeRegions_length:
  assumes "mergeInv cs st"
  shows "\<exists>st'. mergeRegions img opts ids st = Inr st' \<and> mergeInv cs st' \<and>
           length (fst st') = length (fst st)"
  using assms
proof (induction ids arbitrary: st)
  case Nil
  then show ?case by simp
next
  case (Cons i ids)
  obtain m rs where st: "st = (m, rs)" by (cases st)
  from mergeStep_inv [OF Cons.prems [unfolded st], of img opts i] obtain m' rs' where
    s: "mergeStep img opts i (m, rs) = Inr (m', rs')" "mergeInv cs (m', rs')"
    "reassigned (m, rs) (m', rs')" by blast
  from s(3) have "length m' = length m" by (simp add: reassigned_def)
  with Cons.IH [OF s(2)] s(1) st show ?case by auto
qed

text \<open>
  Claim C10. For every well-formed raster (which has at least one pixel) and every
  nonempty palette of defined colours, \<open>generatePbnImage\<close> returns a coloured raster of
  the dimensions of the input in which every pixel is painted: it holds the palette
  colour of its final region, as the clamped byte array stores it, with alpha 255; a
  channel that is a byte is stored as it is.
\<close>

theorem generatePbnImage_fully_painted:
  assumes "wellFormed img" "cs \<noteq> []"
  shows "\<exists>m rs out.
           segmentImage img (map Some cs) opts = Some (Inr (m, rs)) \<and>
           generatePbnImage img (map Some cs) opts = Some (Inr out) \<and>
           fullyPainted img cs m rs out \<and>
           (\<forall>v. 0 \<le> v \<and> v \<le> 255 \<longrightarrow> toUint8Clamp (of_int v) = v)"
proof -
  let ?n = "width img * height img"
  from merge_pass_start [of img opts cs] obtain m0 rs0 nid rs1 where
    s: "findRegions img opts = Some (m0, rs0, nid)" "length m0 = ?n"
    "assignColors (map Some cs) rs0 = Inr rs1" "mergeInv cs (m0, rs1)" by blast
  from mergeRegions_length [OF s(4), of img opts "sortedRegionIds rs1"] obtain m rs where
    f: "mergeRegions img opts (sortedRegionIds rs1) (m0, rs1) = Inr (m, rs)"
    "mergeInv cs (m, rs)" "length m = length m0" by auto
  have seg: "segmentImage img (map Some cs) opts = Some (Inr (m, rs))"
    using s(1,3) f(1) by (simp add: segmentImage_def)
  from f(2) have own: "regionsOwn m rs" and ent: "\<forall>j < length m. m ! j \<in> fst ` set rs"
    and col: "coloredBy cs rs"
    by (simp_all add: mergeInv_def)
  from own have d: "distinct (map fst rs)" by (simp add: regionsOwn_def)
  have len: "length m = ?n" using f(3) s(2) by simp
  have px: "\<exists>r c. map_of rs (m ! i) = Some r \<and> 0 < m ! i \<and> int i \<in> set (pixels r) \<and>
      color r = Some c \<and> c \<in> set cs" if "i < ?n" for i
  proof -
    from that len ent have "m ! i \<in> dom (map_of rs)" by (simp add: dom_map_of_conv_image_fst)
    then obtain r where r: "map_of rs (m ! i) = Some r" by blast
    note o = regionsOwn_lookup [OF own r]
    from that len have "i < length m" by simp
    then have "int i \<in> owned m (m ! i)" by (simp add: owned_def)
    with o(4) have "int i \<in> set (pixels r)" by simp
    moreover from col r assms(2) have "color r \<in> Some ` set cs"
      unfolding coloredBy_iff [OF d] by auto
    ultimately show ?thesis using r o(2) by auto
  qed
  let ?zero = "replicate (4 * ?n) (0::int)"
  have "\<forall>i \<in> set [0..<length m]. i * 4 + 3 < length ?zero \<and> 0 < m ! i \<and>
             (\<exists>r c. map_of rs (m ! i) = Some r \<and> color r = Some c)"
  proof
    fix i assume "i \<in> set [0..<length m]"
    then have i: "i < ?n" using len by simp
    then have "i * 4 + 3 < length ?zero" by simp
    with px [OF i] show "i * 4 + 3 < length ?zero \<and> 0 < m ! i \<and>
             (\<exists>r c. map_of rs (m ! i) = Some r \<and> color r = Some c)" by blast
  qed
  from paintPixels_defined [OF this] obtain d' where
    p: "paintPixels m rs [0..<length m] ?zero = Inr d'" "length d' = length ?zero"
    "\<forall>k < length ?zero. k div 4 \<in> set [0..<length m] \<longrightarrow>
              (\<exists>r c. map_of rs (m ! (k div 4)) = Some r \<and> color r = Some c \<and>
                 d' ! k = [toUint8Clamp (fst c), toUint8Clamp (fst (snd c)),
                           toUint8Clamp (snd (snd c)), 255] ! (k mod 4))"
    by blast
  let ?out = "\<lparr>width = width img, height = height img, data = d'\<rparr>"
  have col: "coloredImage img m rs = Inr ?out"
    using assms(1) p(1) by (simp add: coloredImage_def constructImageData_def wellFormed_def)
  have gen: "generatePbnImage img (map Some cs) opts = Some (Inr ?out)"
    using seg col by (simp add: generatePbnImage_def)
  have painted: "\<exists>r c. map_of rs (m ! i) = Some r \<and> int i \<in> set (pixels r) \<and>
              color r = Some c \<and> c \<in> set cs \<and> paintedWith ?out i c" if i: "i < ?n" for i
  proof -
    from px [OF i] obtain r c where rc: "map_of rs (m ! i) = Some r" "int i \<in> set (pixels r)"
      "color r = Some c" "c \<in> set cs" by blast
    have ch: "d' ! (i * 4 + a) = [toUint8Clamp (fst c), toUint8Clamp (fst (snd c)),
                           toUint8Clamp (snd (snd c)), 255] ! a" if a: "a < 4" for a
    proof -
      have k: "i * 4 + a < length ?zero" using i a by simp
      have dv: "(i * 4 + a) div 4 = i" "(i * 4 + a) mod 4 = a" using a by simp_all
      have "i \<in> set [0..<length m]" using i len by simp
      with p(3) [rule_format, OF k] dv rc(1,3) show ?thesis by auto
    qed
    from ch [of 0] ch [of 1] ch [of 2] ch [of 3] have "paintedWith ?out i c"
      by (simp add: paintedWith_def)
    with rc show ?thesis by blast
  qed
  have "fullyPainted img cs m rs ?out"
    unfolding fullyPainted_def using painted p(2) len by simp
  with seg gen show ?thesis by (auto simp add: toUint8Clamp_byte)
qed

lemma coloredImage_two_columns:
  "coloredImage
     \<lparr>width = 2, height = 2,
        data = [0, 0, 0, 255, 255, 255, 255, 255, 0, 0, 0, 255, 255, 255, 255, 255]\<rparr>
     [1, 2, 1, 2]
     [(1, \<lparr>id_r = 1, pixels = [0, 2], sumR = 0, sumG = 0, sumB = 0,
             minX = 0, minY = 0, maxX = 0, maxY = 1, color = Some (0, 0, 0)\<rparr>),
      (2, \<lparr>id_r = 2, pixels = [1, 3], sumR = 510, sumG = 510, sumB = 510,
             minX = 1, minY = 0, maxX = 1, maxY = 1, color = Some (255, 255, 255)\<rparr>)]
   = Inr \<lparr>width = 2, height = 2,
          data = [0, 0, 0, 255, 255, 255, 255, 255, 0, 0, 0, 255, 255, 255, 255, 255]\<rparr>"
  by (simp add: coloredImage_def constructImageData_def upt_rec eval_nat_numeral Let_def
      toUint8Clamp_def)

theorem generatePbnImage_fully_painted_witness:
  "generatePbnImage
     \<lparr>width = 2, height = 2,
        data = [0, 0, 0, 255, 255, 255, 255, 255, 0, 0, 0, 255, 255, 255, 255, 255]\<rparr>
     [Some (0, 0, 0), Some (255, 255, 255)]
     \<lparr>colorThreshold = 10, minRegionSize = 1, thinnessThreshold = 3 / 2\<rparr>
   = Some (Inr \<lparr>width = 2, height = 2,
          data = [0, 0, 0, 255, 255, 255, 255, 255, 0, 0, 0, 255, 255, 255, 255, 255]\<rparr>) \<and>
   fullyPainted
     \<lparr>width = 2, height = 2,
        data = [0, 0, 0, 255, 255, 255, 255, 255, 0, 0, 0, 255, 255, 255, 255, 255]\<rparr>
     [(0, 0, 0), (255, 255, 255)]
     [1, 2, 1, 2]
     [(1, \<lparr>id_r = 1, pixels = [0, 2], sumR = 0, sumG = 0, sumB = 0,
             minX = 0, minY = 0, maxX = 0, maxY = 1, color = Some (0, 0, 0)\<rparr>),
      (2, \<lparr>id_r = 2, pixels = [1, 3], sumR = 510, sumG = 510, sumB = 510,
             minX = 1, minY = 0, maxX = 1, maxY = 1, color = Some (255, 255, 255)\<rparr>)]
     \<lparr>width = 2, height = 2,
        data = [0, 0, 0, 255, 255, 255, 255, 255, 0, 0, 0, 255, 255, 255, 255, 255]\<rparr>"
  using generatePbnImage_fully_painted
    [of "\<lparr>width = 2, height = 2,
           data = [0, 0, 0, 255, 255, 255, 255, 255, 0, 0, 0, 255, 255, 255, 255, 255]\<rparr>"
        "[(0, 0, 0), (255, 255, 255)]"
        "\<lparr>colorThreshold = 10, minRegionSize = 1, thinnessThreshold = 3 / 2\<rparr>"]
  by (simp add: wellFormed_def generatePbnImage_def segmentImage_two_columns
      coloredImage_two_columns)

end
